theory Spec2Isabelle
  imports Main "HOL-Library.Signed_Division"
begin

section \<open>The dataloader package (main.go)\<close>

text \<open>
  The package batches point lookups: \<open>LoadMany\<close> attaches the caller's keys to the
  Loader's current batch (creating one, and its \<open>run\<close> goroutine, when there is none),
  \<open>run\<close> sleeps, detaches the batch, cuts its keys into chunks, fetches the chunks in
  goroutines of their own and collects what they send; the callers then read the batch.

  The embedding has two layers. The sequential functions (\<open>chunk\<close>, \<open>New\<close>, the loops
  over keys and results) are HOL functions. The goroutines are program counters in a
  state record, and every piece of code that runs without another goroutine being able
  to observe it (a critical section of a mutex, a channel operation) is one function
  from state to state; a schedule is a list of actions. Go's \<open>int\<close> and
  \<open>time.Duration\<close> are \<open>int\<close>: the only arithmetic is \<open>len(items)/size + 1\<close>, which
  stays far inside 64 bits for every slice of keys.
\<close>

subsection \<open>chunk\<close>

text \<open>The run-time panics the package can raise.\<close>

datatype panic =
    DivideByZero
  | MakesliceCapOutOfRange
  | SliceBoundsOutOfRange
  | NilPointerDereference

text \<open>
  The loop of \<open>chunk\<close>:
  \<^verbatim>\<open>for size < len(items) { items, chunks = items[size:], append(chunks, items[0:size:size]) }\<close>
  \<^verbatim>\<open>return append(chunks, items)\<close>
  \<open>items[size:]\<close> panics when \<open>size\<close> is negative. With \<open>size = 0\<close> and items left
  the loop never ends, so the loop is a partial function: \<open>None\<close> is "does not return".
\<close>

partial_function (option) chunk_loop ::
  "'t list \<Rightarrow> int \<Rightarrow> 't list list \<Rightarrow> (panic + 't list list) option" where
  "chunk_loop items sz chunks =
     (if sz < int (length items) then
        (if sz < 0 then Some (Inl SliceBoundsOutOfRange)
         else chunk_loop (drop (nat sz) items) sz (chunks @ [take (nat sz) items]))
      else Some (Inr (chunks @ [items])))"

declare chunk_loop.simps [code]

text \<open>
  \<open>chunk\<close> first allocates \<^verbatim>\<open>make([][]T, 0, (len(items)/size)+1)\<close>: the division panics
  when \<open>size\<close> is zero, and \<open>make\<close> panics on a negative capacity. Go's division
  truncates toward zero (\<open>sdiv\<close>).
\<close>

definition chunk :: "'t list \<Rightarrow> int \<Rightarrow> (panic + 't list list) option" where
  "chunk items sz =
     (if sz = 0 then Some (Inl DivideByZero)
      else if (int (length items) sdiv sz) + 1 < 0 then Some (Inl MakesliceCapOutOfRange)
      else chunk_loop items sz [])"

subsection \<open>The data: FetchFunc, batch, Loader\<close>

text \<open>
  A \<open>FetchFunc\<close> returns a map or an error (\<open>Inl\<close>); the value \<open>None\<close> is Go's nil
  function. A Go \<open>error\<close> is a value of type \<open>'e\<close>, nil is \<open>None\<close>. A Go map is a
  partial function; reading a missing key gives the zero value of the value type,
  which the functions that read one take as the parameter \<open>zero\<close>. Keys are compared
  with Go's \<open>==\<close>, taken to be equality (no key is a NaN).
\<close>

type_synonym ('k, 'v, 'e) FetchFunc = "('k list \<Rightarrow> 'e + ('k \<rightharpoonup> 'v)) option"

text \<open>
  \<open>sync.RWMutex\<close>, as far as the package uses it: free, held by a writer, held by
  \<open>n + 1\<close> readers, or held by \<open>n + 1\<close> readers while a writer waits in \<open>Lock\<close> for
  them to leave. The mutex gives way to the writer: from the moment it waits, \<open>RLock\<close>
  lets no further reader in, and every other \<open>Lock\<close> waits behind it.
\<close>

datatype rwmutex = Unlocked | WriteLocked | ReadLocked nat | WriterWaiting nat

fun RLock :: "rwmutex \<Rightarrow> rwmutex" where
  "RLock Unlocked = ReadLocked 0"
| "RLock (ReadLocked n) = ReadLocked (Suc n)"
| "RLock WriteLocked = WriteLocked"
| "RLock (WriterWaiting n) = WriterWaiting n"

fun writer_waits :: "rwmutex \<Rightarrow> bool" where
  "writer_waits (WriterWaiting n) = True"
| "writer_waits m = False"

text \<open>The channel \<open>ch\<close> is only ever closed: the field is \<open>True\<close> once it is.\<close>

record ('k, 'v, 'e) batch =
  batchSize :: int
  ch :: bool
  mut :: rwmutex
  fn :: "('k, 'v, 'e) FetchFunc"
  err :: "'e option"
  keys :: "'k \<rightharpoonup> bool"
  results :: "'k \<rightharpoonup> 'v"

text \<open>
  \<open>currentBatch\<close> is a pointer: an address in the heap of batches of the state below,
  \<open>None\<close> for nil. The Loader's own mutex is held only inside single steps of the
  model, so it has no field.
\<close>

record ('k, 'v, 'e) Loader =
  BatchSize :: int
  Delay :: int
  fn :: "('k, 'v, 'e) FetchFunc"
  currentBatch :: "nat option"

definition defaultBatchSize :: int where
  "defaultBatchSize = 1000"

definition Millisecond :: int where
  "Millisecond = 1000000"

definition defaultDelay :: int where
  "defaultDelay = 5 * Millisecond"

text \<open>\<open>New\<close> returns a pointer to a fresh Loader (\<open>Some\<close>) and a nil error.\<close>

definition New :: "('k, 'v, 'e) FetchFunc \<Rightarrow> ('k, 'v, 'e) Loader option \<times> 'e option" where
  "New f =
     (Some \<lparr>BatchSize = defaultBatchSize, Delay = defaultDelay, fn = f, currentBatch = None\<rparr>,
      None)"

subsection \<open>The loops over keys and results\<close>

text \<open>\<open>m[key]\<close> on a Go map.\<close>

definition map_index :: "'v \<Rightarrow> ('k \<rightharpoonup> 'v) \<Rightarrow> 'k \<Rightarrow> 'v" where
  "map_index zero m key = (case m key of None \<Rightarrow> zero | Some v \<Rightarrow> v)"

text \<open>\<^verbatim>\<open>for _, key := range keys { bat.keys[key] = true }\<close>\<close>

fun insert_keys :: "'k list \<Rightarrow> ('k \<rightharpoonup> bool) \<Rightarrow> ('k \<rightharpoonup> bool)" where
  "insert_keys [] m = m"
| "insert_keys (key # ks) m = insert_keys ks (m(key \<mapsto> True))"

text \<open>\<^verbatim>\<open>for _, key := range keys { results[key] = bat.results[key] }\<close>\<close>

fun copy_results :: "'v \<Rightarrow> 'k list \<Rightarrow> ('k \<rightharpoonup> 'v) \<Rightarrow> ('k \<rightharpoonup> 'v) \<Rightarrow> ('k \<rightharpoonup> 'v)" where
  "copy_results zero [] src dst = dst"
| "copy_results zero (key # ks) src dst =
     copy_results zero ks src (dst(key \<mapsto> map_index zero src key))"

text \<open>
  \<^verbatim>\<open>for key := range results { bat.results[key] = results[key] }\<close>: every entry of the
  chunk's result overwrites the batch's.
\<close>

definition merge_results :: "('k \<rightharpoonup> 'v) \<Rightarrow> ('k \<rightharpoonup> 'v) \<Rightarrow> ('k \<rightharpoonup> 'v)" where
  "merge_results dst src = dst ++ src"

text \<open>
  \<^verbatim>\<open>for key := range bat.keys { keys = append(keys, key) }\<close>: Go ranges over a map in
  an order of its choosing, so any list of the map's keys, each once, can come out.
\<close>

definition range_keys :: "('k \<rightharpoonup> bool) \<Rightarrow> 'k list \<Rightarrow> bool" where
  "range_keys m ks = (distinct ks \<and> set ks = dom m)"

text \<open>
  \<open>Load\<close>, from what its call of \<open>LoadMany(key)\<close> returned: the error with the zero
  value, or \<open>results[key]\<close> with a nil error.
\<close>

definition Load :: "'v \<Rightarrow> 'k \<Rightarrow> ('k \<rightharpoonup> 'v) \<times> 'e option \<Rightarrow> 'v \<times> 'e option" where
  "Load zero key r =
     (case snd r of
        Some e \<Rightarrow> (zero, Some e)
      | None \<Rightarrow> (map_index zero (fst r) key, None))"

subsection \<open>Goroutines and the state\<close>

text \<open>
  A chunk's goroutine calls \<open>bat.fn(chunk)\<close> (\<open>Fetching\<close>), then blocks sending the
  outcome on \<open>errChan\<close> or \<open>resultChan\<close>, which are unbuffered (\<open>Sending\<close>), and ends,
  with \<open>wg.Done()\<close>, once \<open>run\<close> has received it (\<open>Delivered\<close>).
\<close>

datatype ('k, 'v, 'e) status =
    Fetching
  | Sending "'e + ('k \<rightharpoonup> 'v)"
  | Delivered "'e + ('k \<rightharpoonup> 'v)"

type_synonym ('k, 'v, 'e) task = "'k list \<times> ('k, 'v, 'e) status"

text \<open>
  Where a \<open>run\<close> goroutine stands: started by \<open>go loader.run()\<close>; in
  \<open>time.Sleep(d)\<close>; past the detach, with the pointer it read; in the \<open>select\<close> loop,
  holding the batch's mutex, with the chunk goroutines it started; returned (the chunk
  goroutines live on); or stopped by a panic.
\<close>

datatype ('k, 'v, 'e) run_pc =
    RunSpawned
  | Sleeping int
  | Detached "nat option"
  | Selecting nat "('k, 'v, 'e) task list"
  | RunReturned nat "('k, 'v, 'e) task list"
  | RunPanicked panic

text \<open>
  Where a call of \<open>LoadMany(keys...)\<close> stands: entered; past the Loader's critical
  section, with its batch; inside \<open>bat.mut.Lock()\<close>, waiting for the readers of the
  mutex to leave; past the insertion of its keys, waiting on \<open>ch\<close>; returned, with the
  map and the error it returned.
\<close>

datatype ('k, 'v, 'e) call_pc =
    Called "'k list"
  | Attached "'k list" nat
  | Locking "'k list" nat
  | Waiting "'k list" nat
  | CallReturned "'k list" nat "'k \<rightharpoonup> 'v" "'e option"

record ('k, 'v, 'e) state =
  loader :: "('k, 'v, 'e) Loader"
  heap :: "('k, 'v, 'e) batch list"
  runs :: "('k, 'v, 'e) run_pc list"
  calls :: "('k, 'v, 'e) call_pc list"

definition init :: "('k, 'v, 'e) Loader \<Rightarrow> ('k, 'v, 'e) state" where
  "init l = \<lparr>loader = l, heap = [], runs = [], calls = []\<rparr>"

subsection \<open>LoadMany\<close>

text \<open>The batch \<open>LoadMany\<close> allocates when \<open>loader.currentBatch == nil\<close>.\<close>

definition new_batch :: "('k, 'v, 'e) Loader \<Rightarrow> ('k, 'v, 'e) batch" where
  "new_batch l =
     \<lparr>batchSize = BatchSize l, ch = False, mut = Unlocked, fn = Loader.fn l, err = None,
      keys = Map.empty, results = Map.empty\<rparr>"

text \<open>
  Lines 154-167, under \<open>loader.mut\<close>: create the batch and start \<open>run\<close> if there is no
  current batch; read the current batch.
\<close>

definition LoadMany_attach :: "nat \<Rightarrow> ('k, 'v, 'e) state \<Rightarrow> ('k, 'v, 'e) state option" where
  "LoadMany_attach i s =
     (if i < length (calls s) then
        (case calls s ! i of
           Called ks \<Rightarrow>
             (case currentBatch (loader s) of
                None \<Rightarrow>
                  Some (s\<lparr>loader := (loader s)\<lparr>currentBatch := Some (length (heap s))\<rparr>,
                          heap := heap s @ [new_batch (loader s)],
                          runs := runs s @ [RunSpawned],
                          calls := (calls s)[i := Attached ks (length (heap s))]\<rparr>)
              | Some b \<Rightarrow> Some (s\<lparr>calls := (calls s)[i := Attached ks b]\<rparr>))
         | _ \<Rightarrow> None)
      else None)"

text \<open>
  Line 169, \<open>bat.mut.Lock()\<close>, called while readers hold the mutex: the call waits for
  them to leave, and the mutex lets no further reader in. (While a writer holds the
  mutex, or waits for it, the call waits behind that writer: no step.)
\<close>

definition LoadMany_lock :: "nat \<Rightarrow> ('k, 'v, 'e) state \<Rightarrow> ('k, 'v, 'e) state option" where
  "LoadMany_lock i s =
     (if i < length (calls s) then
        (case calls s ! i of
           Attached ks b \<Rightarrow>
             (if b < length (heap s) then
                (case mut (heap s ! b) of
                   ReadLocked n \<Rightarrow>
                     Some (s\<lparr>heap := (heap s)[b := (heap s ! b)\<lparr>mut := WriterWaiting n\<rparr>],
                             calls := (calls s)[i := Locking ks b]\<rparr>)
                 | _ \<Rightarrow> None)
              else None)
         | _ \<Rightarrow> None)
      else None)"

text \<open>
  Lines 169-175, under \<open>bat.mut.Lock()\<close>, which returns at once when the mutex is free:
  insert the keys. (A call that waits in \<open>Lock\<close> goes on when the last reader unlocks.
  The only \<open>RUnlock\<close>, on line 188, is in one step with its \<open>RLock\<close>, which a waiting
  writer holds up, and the readers that keep the mutex from one step to the next are the
  calls that returned on line 182, which do not unlock: no step leaves \<open>Locking\<close>.)
\<close>

definition LoadMany_insert :: "nat \<Rightarrow> ('k, 'v, 'e) state \<Rightarrow> ('k, 'v, 'e) state option" where
  "LoadMany_insert i s =
     (if i < length (calls s) then
        (case calls s ! i of
           Attached ks b \<Rightarrow>
             (if b < length (heap s) \<and> mut (heap s ! b) = Unlocked then
                Some (s\<lparr>heap := (heap s)[b := (heap s ! b)\<lparr>keys := insert_keys ks (keys (heap s ! b))\<rparr>],
                        calls := (calls s)[i := Waiting ks b]\<rparr>)
              else None)
         | _ \<Rightarrow> None)
      else None)"

text \<open>
  Lines 177-190: \<open><-ch\<close> returns once \<open>ch\<close> is closed, \<open>bat.mut.RLock()\<close> once no
  writer holds the mutex or waits for it. With an error the call returns the empty map
  and the error, and does not reach \<open>RUnlock\<close>: the mutex keeps this reader for good.
  Without an error the call copies its keys' results and unlocks.
\<close>

definition LoadMany_return ::
  "'v \<Rightarrow> nat \<Rightarrow> ('k, 'v, 'e) state \<Rightarrow> ('k, 'v, 'e) state option" where
  "LoadMany_return zero i s =
     (if i < length (calls s) then
        (case calls s ! i of
           Waiting ks b \<Rightarrow>
             (if b < length (heap s) \<and> ch (heap s ! b) \<and> mut (heap s ! b) \<noteq> WriteLocked
                 \<and> \<not> writer_waits (mut (heap s ! b)) then
                (case err (heap s ! b) of
                   Some e \<Rightarrow>
                     Some (s\<lparr>heap := (heap s)[b := (heap s ! b)\<lparr>mut := RLock (mut (heap s ! b))\<rparr>],
                             calls := (calls s)[i := CallReturned ks b Map.empty (Some e)]\<rparr>)
                 | None \<Rightarrow>
                     Some (s\<lparr>calls := (calls s)[i := CallReturned ks b
                               (copy_results zero ks (results (heap s ! b)) Map.empty) None]\<rparr>))
              else None)
         | _ \<Rightarrow> None)
      else None)"

subsection \<open>run\<close>

text \<open>Line 194: \<open>time.Sleep(loader.Delay)\<close> reads the Loader's delay.\<close>

definition run_sleep :: "nat \<Rightarrow> ('k, 'v, 'e) state \<Rightarrow> ('k, 'v, 'e) state option" where
  "run_sleep r s =
     (if r < length (runs s) then
        (case runs s ! r of
           RunSpawned \<Rightarrow> Some (s\<lparr>runs := (runs s)[r := Sleeping (Delay (loader s))]\<rparr>)
         | _ \<Rightarrow> None)
      else None)"

text \<open>Lines 196-199, under \<open>loader.mut\<close>: take the current batch and clear the pointer.\<close>

definition run_detach :: "nat \<Rightarrow> ('k, 'v, 'e) state \<Rightarrow> ('k, 'v, 'e) state option" where
  "run_detach r s =
     (if r < length (runs s) then
        (case runs s ! r of
           Sleeping d \<Rightarrow>
             Some (s\<lparr>loader := (loader s)\<lparr>currentBatch := None\<rparr>,
                     runs := (runs s)[r := Detached (currentBatch (loader s))]\<rparr>)
         | _ \<Rightarrow> None)
      else None)"

text \<open>
  Lines 201-233: \<open>bat.mut.Lock()\<close> (a nil \<open>bat\<close> panics), the keys of the map in the
  order \<open>ks\<close> of the range loop, \<open>chunk\<close>, and one goroutine for each chunk. A panic of
  \<open>chunk\<close> stops \<open>run\<close>.
\<close>

definition run_dispatch ::
  "nat \<Rightarrow> 'k list \<Rightarrow> ('k, 'v, 'e) state \<Rightarrow> ('k, 'v, 'e) state option" where
  "run_dispatch r ks s =
     (if r < length (runs s) then
        (case runs s ! r of
           Detached None \<Rightarrow> Some (s\<lparr>runs := (runs s)[r := RunPanicked NilPointerDereference]\<rparr>)
         | Detached (Some b) \<Rightarrow>
             (if b < length (heap s) \<and> mut (heap s ! b) = Unlocked
                 \<and> range_keys (keys (heap s ! b)) ks then
                (case chunk ks (batchSize (heap s ! b)) of
                   None \<Rightarrow> None
                 | Some (Inl p) \<Rightarrow>
                     Some (s\<lparr>heap := (heap s)[b := (heap s ! b)\<lparr>mut := WriteLocked\<rparr>],
                             runs := (runs s)[r := RunPanicked p]\<rparr>)
                 | Some (Inr chunks) \<Rightarrow>
                     Some (s\<lparr>heap := (heap s)[b := (heap s ! b)\<lparr>mut := WriteLocked\<rparr>],
                             runs := (runs s)[r := Selecting b (map (\<lambda>c. (c, Fetching)) chunks)]\<rparr>))
              else None)
         | _ \<Rightarrow> None)
      else None)"

text \<open>
  Line 222, in the goroutine of a chunk: \<open>bat.fn(chunk)\<close> returns. The goroutines
  outlive \<open>run\<close>. (A nil \<open>fn\<close> panics: no step.)
\<close>

definition fetch_task ::
  "('k, 'v, 'e) FetchFunc \<Rightarrow> ('k, 'v, 'e) task list \<Rightarrow> nat \<Rightarrow> ('k, 'v, 'e) task list option" where
  "fetch_task f ts j =
     (if j < length ts then
        (case (f, snd (ts ! j)) of
           (Some g, Fetching) \<Rightarrow> Some (ts[j := (fst (ts ! j), Sending (g (fst (ts ! j))))])
         | _ \<Rightarrow> None)
      else None)"

definition task_fetch :: "nat \<Rightarrow> nat \<Rightarrow> ('k, 'v, 'e) state \<Rightarrow> ('k, 'v, 'e) state option" where
  "task_fetch r j s =
     (if r < length (runs s) then
        (case runs s ! r of
           Selecting b ts \<Rightarrow>
             (if b < length (heap s) then
                (case fetch_task (batch.fn (heap s ! b)) ts j of
                   Some ts' \<Rightarrow> Some (s\<lparr>runs := (runs s)[r := Selecting b ts']\<rparr>)
                 | None \<Rightarrow> None)
              else None)
         | RunReturned b ts \<Rightarrow>
             (if b < length (heap s) then
                (case fetch_task (batch.fn (heap s ! b)) ts j of
                   Some ts' \<Rightarrow> Some (s\<lparr>runs := (runs s)[r := RunReturned b ts']\<rparr>)
                 | None \<Rightarrow> None)
              else None)
         | _ \<Rightarrow> None)
      else None)"

text \<open>
  Lines 236-250, the \<open>select\<close>, receiving what task \<open>j\<close> sends. A result is merged
  and the loop goes on. An error is stored in \<open>bat.err\<close>, the loop is left, \<open>bat.ch\<close>
  is closed and \<open>run\<close> returns, which unlocks \<open>bat.mut\<close>.
\<close>

definition run_select :: "nat \<Rightarrow> nat \<Rightarrow> ('k, 'v, 'e) state \<Rightarrow> ('k, 'v, 'e) state option" where
  "run_select r j s =
     (if r < length (runs s) then
        (case runs s ! r of
           Selecting b ts \<Rightarrow>
             (if b < length (heap s) \<and> j < length ts then
                (case snd (ts ! j) of
                   Sending (Inr res) \<Rightarrow>
                     Some (s\<lparr>heap := (heap s)[b := (heap s ! b)
                                \<lparr>results := merge_results (results (heap s ! b)) res\<rparr>],
                             runs := (runs s)[r := Selecting b
                                (ts[j := (fst (ts ! j), Delivered (Inr res))])]\<rparr>)
                 | Sending (Inl e) \<Rightarrow>
                     Some (s\<lparr>heap := (heap s)[b := (heap s ! b)
                                \<lparr>ch := True, mut := Unlocked, err := Some e\<rparr>],
                             runs := (runs s)[r := RunReturned b
                                (ts[j := (fst (ts ! j), Delivered (Inl e))])]\<rparr>)
                 | _ \<Rightarrow> None)
              else None)
         | _ \<Rightarrow> None)
      else None)"

text \<open>
  \<open>wgChan\<close> is closed after \<open>wg.Wait()\<close>, that is once every chunk goroutine has
  ended; the \<open>select\<close> then leaves the loop, \<open>bat.ch\<close> is closed and \<open>run\<close> returns.
\<close>

fun delivered :: "('k, 'v, 'e) task \<Rightarrow> bool" where
  "delivered (c, Delivered out) = True"
| "delivered (c, st) = False"

definition run_select_wg :: "nat \<Rightarrow> ('k, 'v, 'e) state \<Rightarrow> ('k, 'v, 'e) state option" where
  "run_select_wg r s =
     (if r < length (runs s) then
        (case runs s ! r of
           Selecting b ts \<Rightarrow>
             (if b < length (heap s) \<and> list_all delivered ts then
                Some (s\<lparr>heap := (heap s)[b := (heap s ! b)\<lparr>ch := True, mut := Unlocked\<rparr>],
                        runs := (runs s)[r := RunReturned b ts]\<rparr>)
              else None)
         | _ \<Rightarrow> None)
      else None)"

subsection \<open>Schedules\<close>

text \<open>
  What can happen next: a goroutine calls \<open>LoadMany\<close>; the program assigns to the
  public fields \<open>BatchSize\<close> or \<open>Delay\<close>; a call, a \<open>run\<close> or a chunk goroutine takes its
  next step. \<open>exec\<close> is \<open>None\<close> when the step cannot be taken in the state.
\<close>

datatype 'k action =
    Call "'k list"
  | SetBatchSize int
  | SetDelay int
  | Attach nat
  | Lock nat
  | Insert nat
  | Return nat
  | RunSleep nat
  | RunDetach nat
  | RunDispatch nat "'k list"
  | TaskFetch nat nat
  | Select nat nat
  | SelectWg nat

fun exec :: "'v \<Rightarrow> 'k action \<Rightarrow> ('k, 'v, 'e) state \<Rightarrow> ('k, 'v, 'e) state option" where
  "exec zero (Call ks) s = Some (s\<lparr>calls := calls s @ [Called ks]\<rparr>)"
| "exec zero (SetBatchSize n) s = Some (s\<lparr>loader := (loader s)\<lparr>BatchSize := n\<rparr>\<rparr>)"
| "exec zero (SetDelay d) s = Some (s\<lparr>loader := (loader s)\<lparr>Delay := d\<rparr>\<rparr>)"
| "exec zero (Attach i) s = LoadMany_attach i s"
| "exec zero (Lock i) s = LoadMany_lock i s"
| "exec zero (Insert i) s = LoadMany_insert i s"
| "exec zero (Return i) s = LoadMany_return zero i s"
| "exec zero (RunSleep r) s = run_sleep r s"
| "exec zero (RunDetach r) s = run_detach r s"
| "exec zero (RunDispatch r ks) s = run_dispatch r ks s"
| "exec zero (TaskFetch r j) s = task_fetch r j s"
| "exec zero (Select r j) s = run_select r j s"
| "exec zero (SelectWg r) s = run_select_wg r s"

fun exec_all ::
  "'v \<Rightarrow> 'k action list \<Rightarrow> ('k, 'v, 'e) state \<Rightarrow> ('k, 'v, 'e) state option" where
  "exec_all zero [] s = Some s"
| "exec_all zero (a # as) s =
     (case exec zero a s of None \<Rightarrow> None | Some s' \<Rightarrow> exec_all zero as s')"

section \<open>Invariants of the reachable states\<close>

text \<open>
  The predicates below hold in every state a schedule reaches from a Loader with no
  current batch; the claims about windows are proved from them.
\<close>

text \<open>A \<open>run\<close> that has not yet taken the current batch.\<close>

fun pre_detach :: "('k, 'v, 'e) run_pc \<Rightarrow> bool" where
  "pre_detach RunSpawned = True"
| "pre_detach (Sleeping d) = True"
| "pre_detach pc = False"

text \<open>
  Goroutines and batches are created together, by the same step of \<open>LoadMany\<close>, so the
  \<open>run\<close> at index \<open>r\<close> was started for the batch at address \<open>r\<close>, and that is the batch it holds.
\<close>

fun run_ref_ok :: "nat \<Rightarrow> ('k, 'v, 'e) run_pc \<Rightarrow> bool" where
  "run_ref_ok r (Detached x) = (x = Some r)"
| "run_ref_ok r (Selecting b ts) = (b = r)"
| "run_ref_ok r (RunReturned b ts) = (b = r)"
| "run_ref_ok r pc = True"

text \<open>The batch of a call is allocated.\<close>

fun call_ref_ok :: "nat \<Rightarrow> ('k, 'v, 'e) call_pc \<Rightarrow> bool" where
  "call_ref_ok n (Called ks) = True"
| "call_ref_ok n (Attached ks b) = (b < n)"
| "call_ref_ok n (Locking ks b) = (b < n)"
| "call_ref_ok n (Waiting ks b) = (b < n)"
| "call_ref_ok n (CallReturned ks b res er) = (b < n)"

text \<open>
  The shape of a reachable state: one \<open>run\<close> for each batch; a \<open>run\<close> has yet to detach
  exactly when its batch is the current one; pointers point into the heap.
\<close>

definition well_formed :: "('k, 'v, 'e) state \<Rightarrow> bool" where
  "well_formed s =
     (length (runs s) = length (heap s)
      \<and> (\<forall>r < length (runs s). pre_detach (runs s ! r) = (currentBatch (loader s) = Some r))
      \<and> (\<forall>b. currentBatch (loader s) = Some b \<longrightarrow> b < length (heap s))
      \<and> (\<forall>r < length (runs s). run_ref_ok r (runs s ! r))
      \<and> (\<forall>i < length (calls s). call_ref_ok (length (heap s)) (calls s ! i)))"

text \<open>What a chunk goroutine sends is what \<open>bat.fn\<close> returned for its chunk.\<close>

definition task_ok :: "('k, 'v, 'e) FetchFunc \<Rightarrow> ('k, 'v, 'e) task \<Rightarrow> bool" where
  "task_ok f t =
     (case snd t of
        Fetching \<Rightarrow> True
      | Sending out \<Rightarrow> (\<exists>g. f = Some g \<and> out = g (fst t))
      | Delivered out \<Rightarrow> (\<exists>g. f = Some g \<and> out = g (fst t)))"

text \<open>A chunk goroutine whose error \<open>run\<close> has received.\<close>

fun failed :: "('k, 'v, 'e) task \<Rightarrow> bool" where
  "failed (c, Delivered (Inl e)) = True"
| "failed (c, st) = False"

definition tasks_ok :: "('k, 'v, 'e) FetchFunc \<Rightarrow> ('k, 'v, 'e) task list \<Rightarrow> bool" where
  "tasks_ok f ts = (\<forall>j < length ts. task_ok f (ts ! j))"

definition none_failed :: "('k, 'v, 'e) task list \<Rightarrow> bool" where
  "none_failed ts = (\<forall>j < length ts. \<not> failed (ts ! j))"

text \<open>Every entry of \<open>bat.results\<close> comes from a result that \<open>run\<close> has received.\<close>

definition results_from :: "('k \<rightharpoonup> 'v) \<Rightarrow> ('k, 'v, 'e) task list \<Rightarrow> bool" where
  "results_from res ts =
     (\<forall>k. res k \<noteq> None \<longrightarrow>
        (\<exists>j < length ts. \<exists>c m. ts ! j = (c, Delivered (Inr m)) \<and> m k \<noteq> None))"

text \<open>
  A batch and its \<open>run\<close>: in the \<open>select\<close> loop the channel is open and no error is
  stored or has been received; after the return the channel is closed, and either no error is
  stored and every chunk goroutine has ended without one, or the stored error is the one
  received from a chunk goroutine; before the loop (or after a panic) the batch is untouched.
\<close>

fun batch_ok :: "('k, 'v, 'e) batch \<Rightarrow> ('k, 'v, 'e) run_pc \<Rightarrow> bool" where
  "batch_ok B (Selecting b ts) =
     (\<not> ch B \<and> err B = None \<and> tasks_ok (batch.fn B) ts \<and> none_failed ts
      \<and> results_from (results B) ts)"
| "batch_ok B (RunReturned b ts) =
     (ch B \<and> tasks_ok (batch.fn B) ts \<and> results_from (results B) ts
      \<and> (case err B of
            None \<Rightarrow> (\<forall>j < length ts. delivered (ts ! j)) \<and> none_failed ts
          | Some e \<Rightarrow> (\<exists>j < length ts. \<exists>c. ts ! j = (c, Delivered (Inl e)))))"
| "batch_ok B pc = (\<not> ch B \<and> err B = None \<and> results B = Map.empty)"

definition batches_ok :: "('k, 'v, 'e) state \<Rightarrow> bool" where
  "batches_ok s = (\<forall>r < length (runs s). batch_ok (heap s ! r) (runs s ! r))"

text \<open>A returned call holds what it read from its batch, whose channel is closed.\<close>

fun call_ok :: "'v \<Rightarrow> ('k, 'v, 'e) batch list \<Rightarrow> ('k, 'v, 'e) call_pc \<Rightarrow> bool" where
  "call_ok zero h (CallReturned ks b res er) =
     (ch (h ! b) \<and> er = err (h ! b)
      \<and> (er \<noteq> None \<longrightarrow> res = Map.empty)
      \<and> (er = None \<longrightarrow> res = copy_results zero ks (results (h ! b)) Map.empty))"
| "call_ok zero h c = True"

definition calls_ok :: "'v \<Rightarrow> ('k, 'v, 'e) state \<Rightarrow> bool" where
  "calls_ok zero s = (\<forall>i < length (calls s). call_ok zero (heap s) (calls s ! i))"

definition invariant :: "'v \<Rightarrow> ('k, 'v, 'e) state \<Rightarrow> bool" where
  "invariant zero s = (well_formed s \<and> batches_ok s \<and> calls_ok zero s)"

text \<open>The keys a call has inserted are in its batch.\<close>

fun call_keys_ok :: "('k, 'v, 'e) batch list \<Rightarrow> ('k, 'v, 'e) call_pc \<Rightarrow> bool" where
  "call_keys_ok h (Waiting ks b) = (\<forall>k \<in> set ks. keys (h ! b) k = Some True)"
| "call_keys_ok h (CallReturned ks b res er) = (\<forall>k \<in> set ks. keys (h ! b) k = Some True)"
| "call_keys_ok h c = True"

definition inserted_ok :: "('k, 'v, 'e) state \<Rightarrow> bool" where
  "inserted_ok s = (\<forall>i < length (calls s). call_keys_ok (heap s) (calls s ! i))"

text \<open>The key is once in the chunks, taken together, of a dispatched window.\<close>

fun dispatched_once :: "'k \<Rightarrow> ('k, 'v, 'e) run_pc \<Rightarrow> bool" where
  "dispatched_once k (Selecting b ts) = (count_list (concat (map fst ts)) k = 1)"
| "dispatched_once k (RunReturned b ts) = (count_list (concat (map fst ts)) k = 1)"
| "dispatched_once k pc = True"

text \<open>A key that is in batch \<open>b\<close> stays there, and is dispatched once.\<close>

definition key_ok :: "nat \<Rightarrow> 'k \<Rightarrow> ('k, 'v, 'e) state \<Rightarrow> bool" where
  "key_ok b k s =
     (b < length (heap s) \<and> keys (heap s ! b) k = Some True \<and> dispatched_once k (runs s ! b))"

text \<open>Once \<open>run\<close> has returned, no writer holds the batch's mutex.\<close>

fun returned_unlocked :: "('k, 'v, 'e) batch \<Rightarrow> ('k, 'v, 'e) run_pc \<Rightarrow> bool" where
  "returned_unlocked B (RunReturned b ts) = (mut B \<noteq> WriteLocked)"
| "returned_unlocked B pc = True"

definition unlocked_ok :: "('k, 'v, 'e) state \<Rightarrow> bool" where
  "unlocked_ok s = (\<forall>r < length (runs s). returned_unlocked (heap s ! r) (runs s ! r))"

text \<open>A mutex that readers hold.\<close>

fun read_locked :: "rwmutex \<Rightarrow> bool" where
  "read_locked (ReadLocked n) = True"
| "read_locked (WriterWaiting n) = True"
| "read_locked m = False"

text \<open>The \<open>run\<close> of batch \<open>b\<close> has returned.\<close>

fun returned_for :: "nat \<Rightarrow> ('k, 'v, 'e) run_pc \<Rightarrow> bool" where
  "returned_for b (RunReturned b' ts) = (b' = b)"
| "returned_for b pc = False"

text \<open>The window of batch \<open>b\<close> has resolved and readers hold the batch's mutex.\<close>

definition read_held :: "nat \<Rightarrow> ('k, 'v, 'e) state \<Rightarrow> bool" where
  "read_held b s =
     (b < length (heap s) \<and> read_locked (mut (heap s ! b)) \<and> returned_for b (runs s ! b))"

text \<open>
  From \<open>s\<close> to \<open>s'\<close> no call has taken the mutex of batch \<open>b\<close>: a call that had yet to
  lock it for its insertion still has, or waits in \<open>Lock\<close>; a call that waited in \<open>Lock\<close>
  still does; and, if a writer waited for the mutex, it still does, and every call that
  had yet to lock the mutex for reading still has.
\<close>

definition starved :: "nat \<Rightarrow> ('k, 'v, 'e) state \<Rightarrow> ('k, 'v, 'e) state \<Rightarrow> bool" where
  "starved b s s' =
     (length (calls s) \<le> length (calls s')
      \<and> (writer_waits (mut (heap s ! b)) \<longrightarrow> writer_waits (mut (heap s' ! b)))
      \<and> (\<forall>i < length (calls s). \<forall>ks.
            (calls s ! i = Attached ks b \<longrightarrow>
               calls s' ! i = Attached ks b \<or> calls s' ! i = Locking ks b)
            \<and> (calls s ! i = Locking ks b \<longrightarrow> calls s' ! i = Locking ks b)
            \<and> (writer_waits (mut (heap s ! b)) \<longrightarrow> calls s ! i = Waiting ks b \<longrightarrow>
                 calls s' ! i = Waiting ks b)))"

text \<open>A call that returned an error still holds the mutex of its batch as a reader.\<close>

fun reader_ok :: "('k, 'v, 'e) batch list \<Rightarrow> ('k, 'v, 'e) call_pc \<Rightarrow> bool" where
  "reader_ok h (CallReturned ks b res (Some e)) = read_locked (mut (h ! b))"
| "reader_ok h c = True"

definition readers_ok :: "('k, 'v, 'e) state \<Rightarrow> bool" where
  "readers_ok s = (\<forall>i < length (calls s). reader_ok (heap s) (calls s ! i))"

text \<open>The chunks of the window of batch \<open>b\<close> are \<open>cs\<close>.\<close>

fun dispatched :: "nat \<Rightarrow> 'k list list \<Rightarrow> ('k, 'v, 'e) run_pc \<Rightarrow> bool" where
  "dispatched b cs (Selecting b' ts) = (b' = b \<and> map fst ts = cs)"
| "dispatched b cs (RunReturned b' ts) = (b' = b \<and> map fst ts = cs)"
| "dispatched b cs pc = False"

text \<open>
  The chunk goroutines of a \<open>run\<close> that has returned: one that is sending stays as it is,
  and none newly ends.
\<close>

definition stalled :: "('k, 'v, 'e) task list \<Rightarrow> ('k, 'v, 'e) task list \<Rightarrow> bool" where
  "stalled ts ts' =
     (length ts' = length ts
      \<and> (\<forall>j < length ts.
            (\<forall>c out. ts ! j = (c, Sending out) \<longrightarrow> ts' ! j = (c, Sending out))
            \<and> (delivered (ts' ! j) \<longrightarrow> delivered (ts ! j))))"

text \<open>After \<open>run\<close> has returned, the error and the results of its batch stay as they are.\<close>

definition frozen :: "nat \<Rightarrow> nat \<Rightarrow> ('k, 'v, 'e) task list \<Rightarrow> ('k, 'v, 'e) state \<Rightarrow> ('k, 'v, 'e) state \<Rightarrow> bool" where
  "frozen r b ts s s' =
     (err (heap s' ! b) = err (heap s ! b) \<and> results (heap s' ! b) = results (heap s ! b)
      \<and> (\<exists>ts'. runs s' ! r = RunReturned b ts' \<and> stalled ts ts'))"

section \<open>Example fetch functions, schedules and states\<close>

text \<open>
  The fetch function of the package's tests and examples:
  \<^verbatim>\<open>for idx := range keys { key := keys[idx]; results[key] = "result " + key }\<close>
\<close>

fun fetch_loop :: "string list \<Rightarrow> (string \<rightharpoonup> string) \<Rightarrow> (string \<rightharpoonup> string)" where
  "fetch_loop [] res = res"
| "fetch_loop (key # ks) res = fetch_loop ks (res(key \<mapsto> ''result '' @ key))"

definition fetch :: "string list \<Rightarrow> string + (string \<rightharpoonup> string)" where
  "fetch ks = Inr (fetch_loop ks Map.empty)"

text \<open>
  Two more fetch functions for the runs below: one that fails on every chunk holding the key
  \<open>bad\<close>, and one that finds nothing.
\<close>

definition failing_fetch :: "string list \<Rightarrow> string + (string \<rightharpoonup> string)" where
  "failing_fetch ks = (if ''bad'' \<in> set ks then Inl ''fetch failed'' else fetch ks)"

definition empty_fetch :: "string list \<Rightarrow> string + (string \<rightharpoonup> string)" where
  "empty_fetch ks = Inr Map.empty"

text \<open>The zero value of Go's \<open>string\<close>.\<close>

definition zero_string :: string where
  "zero_string = ''''"

text \<open>
  The Loader \<open>New(fetch)\<close> returns, and Loaders for the other two functions (the first with
  \<open>BatchSize\<close> set to 1).
\<close>

definition test_loader :: "(string, string, string) Loader" where
  "test_loader =
     \<lparr>BatchSize = defaultBatchSize, Delay = defaultDelay, fn = Some fetch, currentBatch = None\<rparr>"

definition failing_loader :: "(string, string, string) Loader" where
  "failing_loader =
     \<lparr>BatchSize = 1, Delay = defaultDelay, fn = Some failing_fetch, currentBatch = None\<rparr>"

definition empty_loader :: "(string, string, string) Loader" where
  "empty_loader =
     \<lparr>BatchSize = defaultBatchSize, Delay = defaultDelay, fn = Some empty_fetch,
      currentBatch = None\<rparr>"

text \<open>
  Three calls on one batch. The calls for \<open>bad\<close> and for \<open>good\<close> insert their keys; the
  call for \<open>late\<close> has read the batch pointer and comes no further before the window
  resolves. The result for \<open>good\<close> is received first, then the error, which the call for
  \<open>bad\<close> returns.
\<close>

definition late_window_schedule :: "string action list" where
  "late_window_schedule =
     [Call [''bad''], Call [''good''], Call [''late''], Attach 0, Attach 1, Attach 2, Insert 0,
      Insert 1, RunSleep 0, RunDetach 0, RunDispatch 0 [''bad'', ''good''], TaskFetch 0 0,
      TaskFetch 0 1, Select 0 1, Select 0 0, Return 0]"

definition late_window :: "(string, string, string) state" where
  "late_window =
     \<lparr>loader = failing_loader,
      heap = [\<lparr>batchSize = 1, ch = True, mut = ReadLocked 0, fn = Some failing_fetch,
               err = Some ''fetch failed'',
               keys = [''bad'' \<mapsto> True, ''good'' \<mapsto> True],
               results = [''good'' \<mapsto> ''result good'']\<rparr>],
      runs = [RunReturned 0
               [([''bad''], Delivered (Inl ''fetch failed'')),
                ([''good''], Delivered (Inr [''good'' \<mapsto> ''result good'']))]],
      calls = [CallReturned [''bad''] 0 Map.empty (Some ''fetch failed''),
               Waiting [''good''] 0, Attached [''late''] 0]\<rparr>"

text \<open>Then the call for \<open>late\<close> calls \<open>bat.mut.Lock()\<close>; and one more call arrives.\<close>

definition blocked_window_schedule :: "string action list" where
  "blocked_window_schedule = late_window_schedule @ [Lock 2]"

definition blocked_window :: "(string, string, string) state" where
  "blocked_window =
     \<lparr>loader = failing_loader,
      heap = [\<lparr>batchSize = 1, ch = True, mut = WriterWaiting 0, fn = Some failing_fetch,
               err = Some ''fetch failed'',
               keys = [''bad'' \<mapsto> True, ''good'' \<mapsto> True],
               results = [''good'' \<mapsto> ''result good'']\<rparr>],
      runs = [RunReturned 0
               [([''bad''], Delivered (Inl ''fetch failed'')),
                ([''good''], Delivered (Inr [''good'' \<mapsto> ''result good'']))]],
      calls = [CallReturned [''bad''] 0 Map.empty (Some ''fetch failed''),
               Waiting [''good''] 0, Locking [''late''] 0]\<rparr>"

definition blocked_later :: "(string, string, string) state" where
  "blocked_later = blocked_window\<lparr>calls := calls blocked_window @ [Called [''good'']]\<rparr>"



text \<open>Two calls that ask for the same key three times in all, and the resolution of their window.\<close>

definition dedup_schedule :: "string action list" where
  "dedup_schedule =
     [Call [''wat'', ''wat''], Call [''wat''], Attach 0, Attach 1, Insert 0, Insert 1]"

definition dedup_open :: "(string, string, string) state" where
  "dedup_open =
     \<lparr>loader = test_loader\<lparr>currentBatch := Some 0\<rparr>,
      heap = [\<lparr>batchSize = 1000, ch = False, mut = Unlocked, fn = Some fetch, err = None,
               keys = [''wat'' \<mapsto> True], results = Map.empty\<rparr>],
      runs = [RunSpawned],
      calls = [Waiting [''wat'', ''wat''] 0, Waiting [''wat''] 0]\<rparr>"

definition dedup_resolution :: "string action list" where
  "dedup_resolution =
     [RunSleep 0, RunDetach 0, RunDispatch 0 [''wat''], TaskFetch 0 0, Select 0 0, SelectWg 0,
      Return 0, Return 1]"

definition dedup_closed :: "(string, string, string) state" where
  "dedup_closed =
     \<lparr>loader = test_loader,
      heap = [\<lparr>batchSize = 1000, ch = True, mut = Unlocked, fn = Some fetch, err = None,
               keys = [''wat'' \<mapsto> True], results = [''wat'' \<mapsto> ''result wat'']\<rparr>],
      runs = [RunReturned 0 [([''wat''], Delivered (Inr [''wat'' \<mapsto> ''result wat'']))]],
      calls = [CallReturned [''wat'', ''wat''] 0 [''wat'' \<mapsto> ''result wat''] None,
               CallReturned [''wat''] 0 [''wat'' \<mapsto> ''result wat''] None]\<rparr>"

text \<open>
  A call for \<open>late\<close> that has read the batch pointer when \<open>run\<close> detaches the batch and
  dispatches; it inserts its key once \<open>run\<close> has returned.
\<close>

definition late_key_schedule :: "string action list" where
  "late_key_schedule =
     [Call [''wat''], Attach 0, Insert 0, Call [''late''], Attach 1, RunSleep 0, RunDetach 0,
      RunDispatch 0 [''wat'']]"

definition late_key_open :: "(string, string, string) state" where
  "late_key_open =
     \<lparr>loader = test_loader,
      heap = [\<lparr>batchSize = 1000, ch = False, mut = WriteLocked, fn = Some fetch, err = None,
               keys = [''wat'' \<mapsto> True], results = Map.empty\<rparr>],
      runs = [Selecting 0 [([''wat''], Fetching)]],
      calls = [Waiting [''wat''] 0, Attached [''late''] 0]\<rparr>"

definition late_key_resolution :: "string action list" where
  "late_key_resolution =
     [TaskFetch 0 0, Select 0 0, SelectWg 0, Insert 1, Return 0, Return 1]"

definition late_key_closed :: "(string, string, string) state" where
  "late_key_closed =
     \<lparr>loader = test_loader,
      heap = [\<lparr>batchSize = 1000, ch = True, mut = Unlocked, fn = Some fetch, err = None,
               keys = [''wat'' \<mapsto> True, ''late'' \<mapsto> True],
               results = [''wat'' \<mapsto> ''result wat'']\<rparr>],
      runs = [RunReturned 0 [([''wat''], Delivered (Inr [''wat'' \<mapsto> ''result wat'']))]],
      calls = [CallReturned [''wat''] 0 [''wat'' \<mapsto> ''result wat''] None,
               CallReturned [''late''] 0 [''late'' \<mapsto> zero_string] None]\<rparr>"



definition zero_keys_detached :: "(string, string, string) state" where
  "zero_keys_detached =
     \<lparr>loader = test_loader, heap = [new_batch test_loader],
      runs = [Detached (Some 0)], calls = [Waiting [] 0]\<rparr>"







text \<open>A window whose Loader is reconfigured after the batch was created.\<close>

definition wat_called :: "(string, string, string) state" where
  "wat_called = \<lparr>loader = test_loader, heap = [], runs = [], calls = [Called [''wat'']]\<rparr>"

definition wat_created :: "(string, string, string) state" where
  "wat_created =
     \<lparr>loader = test_loader\<lparr>currentBatch := Some 0\<rparr>, heap = [new_batch test_loader],
      runs = [RunSpawned], calls = [Attached [''wat''] 0]\<rparr>"

definition wat_delay_changed :: "(string, string, string) state" where
  "wat_delay_changed =
     \<lparr>loader = test_loader\<lparr>Delay := 0, currentBatch := Some 0\<rparr>, heap = [new_batch test_loader],
      runs = [Sleeping 0], calls = [Attached [''wat''] 0]\<rparr>"

definition wat_sleeping :: "(string, string, string) state" where
  "wat_sleeping =
     \<lparr>loader = test_loader\<lparr>currentBatch := Some 0\<rparr>, heap = [new_batch test_loader],
      runs = [Sleeping (5 * Millisecond)], calls = [Attached [''wat''] 0]\<rparr>"

definition reconfigure :: "string action list" where
  "reconfigure = [SetBatchSize 1, SetDelay 0, Insert 0]"

definition wat_reconfigured :: "(string, string, string) state" where
  "wat_reconfigured =
     \<lparr>loader = test_loader\<lparr>BatchSize := 1, Delay := 0, currentBatch := Some 0\<rparr>,
      heap = [(new_batch test_loader)\<lparr>keys := [''wat'' \<mapsto> True]\<rparr>],
      runs = [Sleeping (5 * Millisecond)], calls = [Waiting [''wat''] 0]\<rparr>"

definition wat_detached :: "(string, string, string) state" where
  "wat_detached =
     \<lparr>loader = test_loader\<lparr>BatchSize := 1, Delay := 0\<rparr>,
      heap = [(new_batch test_loader)\<lparr>keys := [''wat'' \<mapsto> True]\<rparr>],
      runs = [Detached (Some 0)], calls = [Waiting [''wat''] 0]\<rparr>"

definition wat_dispatched :: "(string, string, string) state" where
  "wat_dispatched =
     \<lparr>loader = test_loader\<lparr>BatchSize := 1, Delay := 0\<rparr>,
      heap = [(new_batch test_loader)\<lparr>mut := WriteLocked, keys := [''wat'' \<mapsto> True]\<rparr>],
      runs = [Selecting 0 [([''wat''], Fetching)]], calls = [Waiting [''wat''] 0]\<rparr>"

text \<open>
  One call for \<open>bad\<close> and \<open>good\<close>, a window of two chunks; both fetches return, and the
  error is received first.
\<close>

definition leak_schedule :: "string action list" where
  "leak_schedule =
     [Call [''bad'', ''good''], Attach 0, Insert 0, RunSleep 0, RunDetach 0,
      RunDispatch 0 [''bad'', ''good''], TaskFetch 0 0, TaskFetch 0 1, Select 0 0]"

definition leak_selecting :: "(string, string, string) state" where
  "leak_selecting =
     \<lparr>loader = failing_loader,
      heap = [\<lparr>batchSize = 1, ch = False, mut = WriteLocked, fn = Some failing_fetch,
               err = None, keys = [''bad'' \<mapsto> True, ''good'' \<mapsto> True], results = Map.empty\<rparr>],
      runs = [Selecting 0
               [([''bad''], Sending (Inl ''fetch failed'')),
                ([''good''], Sending (Inr [''good'' \<mapsto> ''result good'']))]],
      calls = [Waiting [''bad'', ''good''] 0]\<rparr>"

definition leak_returned :: "(string, string, string) state" where
  "leak_returned =
     \<lparr>loader = failing_loader,
      heap = [\<lparr>batchSize = 1, ch = True, mut = Unlocked, fn = Some failing_fetch,
               err = Some ''fetch failed'',
               keys = [''bad'' \<mapsto> True, ''good'' \<mapsto> True], results = Map.empty\<rparr>],
      runs = [RunReturned 0
               [([''bad''], Delivered (Inl ''fetch failed'')),
                ([''good''], Sending (Inr [''good'' \<mapsto> ''result good'']))]],
      calls = [Waiting [''bad'', ''good''] 0]\<rparr>"

definition leak_final :: "(string, string, string) state" where
  "leak_final =
     \<lparr>loader = failing_loader,
      heap = [\<lparr>batchSize = 1, ch = True, mut = ReadLocked 0, fn = Some failing_fetch,
               err = Some ''fetch failed'',
               keys = [''bad'' \<mapsto> True, ''good'' \<mapsto> True], results = Map.empty\<rparr>],
      runs = [RunReturned 0
               [([''bad''], Delivered (Inl ''fetch failed'')),
                ([''good''], Sending (Inr [''good'' \<mapsto> ''result good'']))]],
      calls = [CallReturned [''bad'', ''good''] 0 Map.empty (Some ''fetch failed'')]\<rparr>"

section \<open>Properties of chunk\<close>

text \<open>
  With a positive size the loop returns: it appends to the chunks it was given a
  partition of the items into pieces of at most \<open>sz\<close> items, the pieces non-empty when
  there are items.
\<close>

lemma chunk_loop_positive:
  "0 < sz \<Longrightarrow>
   \<exists>cs. chunk_loop items sz acc = Some (Inr (acc @ cs)) \<and> concat cs = items \<and> cs \<noteq> []
     \<and> (\<forall>c \<in> set cs. int (length c) \<le> sz)
     \<and> (items \<noteq> [] \<longrightarrow> (\<forall>c \<in> set cs. 1 \<le> length c))
     \<and> (int (length items) \<le> sz \<longrightarrow> cs = [items])"
proof (induction items arbitrary: acc rule: length_induct)
  case (1 items)
  show ?case
  proof (cases "sz < int (length items)")
    case False
    then have "chunk_loop items sz acc = Some (Inr (acc @ [items]))"
      by (subst chunk_loop.simps) simp
    with False show ?thesis by (cases items) auto
  next
    case True
    let ?hd = "take (nat sz) items" and ?tl = "drop (nat sz) items"
    from True \<open>0 < sz\<close> have shorter: "length ?tl < length items" and tl_ne: "?tl \<noteq> []"
      and len_hd: "length ?hd = nat sz"
      by auto
    from 1 shorter \<open>0 < sz\<close> obtain cs where
      cs: "chunk_loop ?tl sz (acc @ [?hd]) = Some (Inr ((acc @ [?hd]) @ cs))"
        "concat cs = ?tl" "cs \<noteq> []" "\<forall>c \<in> set cs. int (length c) \<le> sz"
        "\<forall>c \<in> set cs. 1 \<le> length c"
      using tl_ne by blast
    from True \<open>0 < sz\<close> have "chunk_loop items sz acc = chunk_loop ?tl sz (acc @ [?hd])"
      by (subst chunk_loop.simps) simp
    with cs have "chunk_loop items sz acc = Some (Inr (acc @ (?hd # cs)))" by simp
    moreover have "concat (?hd # cs) = items" using cs(2) by simp
    moreover have "\<forall>c \<in> set (?hd # cs). int (length c) \<le> sz"
      using cs(4) len_hd \<open>0 < sz\<close> by auto
    moreover have "\<forall>c \<in> set (?hd # cs). 1 \<le> length c"
      using cs(5) len_hd \<open>0 < sz\<close> by auto
    moreover have "\<not> int (length items) \<le> sz" using True by simp
    ultimately show ?thesis by (intro exI[of _ "?hd # cs"]) simp
  qed
qed

lemma sdiv_nonneg: "0 < sz \<Longrightarrow> 0 \<le> (int n) sdiv sz"
  by (simp add: signed_divide_int_def sgn_if zero_le_mult_iff pos_imp_zdiv_nonneg_iff)

lemma chunk_positive:
  assumes "0 < sz"
  shows "\<exists>cs. chunk items sz = Some (Inr cs) \<and> concat cs = items \<and> cs \<noteq> []
     \<and> (\<forall>c \<in> set cs. int (length c) \<le> sz)
     \<and> (items \<noteq> [] \<longrightarrow> (\<forall>c \<in> set cs. 1 \<le> length c))
     \<and> (int (length items) \<le> sz \<longrightarrow> cs = [items])"
proof -
  from assms have "chunk items sz = chunk_loop items sz []"
    using sdiv_nonneg[OF assms, of "length items"] by (simp add: chunk_def)
  with chunk_loop_positive[OF assms, of items "[]"] show ?thesis by simp
qed

text \<open>With a negative size the first \<open>items[size:]\<close> panics.\<close>

lemma chunk_loop_negative:
  "sz < 0 \<Longrightarrow> chunk_loop items sz acc = Some (Inl SliceBoundsOutOfRange)"
  by (subst chunk_loop.simps) simp

lemma chunk_nonpositive: "sz \<le> 0 \<Longrightarrow> \<exists>p. chunk items sz = Some (Inl p)"
  by (auto simp: chunk_def chunk_loop_negative)

lemma chunk_Inr_positive: "chunk items sz = Some (Inr cs) \<Longrightarrow> 0 < sz"
  using chunk_nonpositive[of sz items] by (cases "0 < sz") auto

lemma chunk_Inr_concat:
  assumes "chunk items sz = Some (Inr cs)"
  shows "concat cs = items"
proof -
  from assms have "0 < sz" by (rule chunk_Inr_positive)
  from chunk_positive[OF this, of items] assms show ?thesis by auto
qed

text \<open>With size zero and items left, the loop on its own returns nothing.\<close>

lemma chunk_loop_zero_no_result:
  "chunk_loop items sz acc = Some y \<Longrightarrow> sz = 0 \<Longrightarrow> items \<noteq> [] \<Longrightarrow> False"
proof -
  assume a: "chunk_loop items sz acc = Some y" "sz = 0" "items \<noteq> []"
  have "sz = 0 \<longrightarrow> items \<noteq> [] \<longrightarrow> False"
    by (rule chunk_loop.raw_induct
          [where P = "\<lambda>items sz acc y. sz = 0 \<longrightarrow> items \<noteq> [] \<longrightarrow> False", OF _ a(1)])
       (auto split: if_splits)
  with a show False by simp
qed

lemma chunk_loop_zero_diverges: "items \<noteq> [] \<Longrightarrow> chunk_loop items 0 acc = None"
  using chunk_loop_zero_no_result[of items 0 acc] by (cases "chunk_loop items 0 acc") auto

section \<open>The steps, case by case\<close>

text \<open>Each step function succeeds in the cases its source has, and nowhere else.\<close>

lemma LoadMany_attach_cases:
  assumes "LoadMany_attach i s = Some s'"
  obtains (create) ks where "i < length (calls s)" "calls s ! i = Called ks"
      "currentBatch (loader s) = None"
      "s' = s\<lparr>loader := (loader s)\<lparr>currentBatch := Some (length (heap s))\<rparr>,
              heap := heap s @ [new_batch (loader s)],
              runs := runs s @ [RunSpawned],
              calls := (calls s)[i := Attached ks (length (heap s))]\<rparr>"
    | (join) ks b where "i < length (calls s)" "calls s ! i = Called ks"
      "currentBatch (loader s) = Some b"
      "s' = s\<lparr>calls := (calls s)[i := Attached ks b]\<rparr>"
  using assms
  by (auto simp: LoadMany_attach_def split: if_splits call_pc.splits option.splits)

lemma LoadMany_lock_cases:
  assumes "LoadMany_lock i s = Some s'"
  obtains ks b n where "i < length (calls s)" "calls s ! i = Attached ks b" "b < length (heap s)"
      "mut (heap s ! b) = ReadLocked n"
      "s' = s\<lparr>heap := (heap s)[b := (heap s ! b)\<lparr>mut := WriterWaiting n\<rparr>],
              calls := (calls s)[i := Locking ks b]\<rparr>"
  using assms
  by (auto simp: LoadMany_lock_def split: if_splits call_pc.splits rwmutex.splits)

lemma LoadMany_insert_cases:
  assumes "LoadMany_insert i s = Some s'"
  obtains ks b where "i < length (calls s)" "calls s ! i = Attached ks b" "b < length (heap s)"
      "mut (heap s ! b) = Unlocked"
      "s' = s\<lparr>heap := (heap s)[b := (heap s ! b)\<lparr>keys := insert_keys ks (keys (heap s ! b))\<rparr>],
              calls := (calls s)[i := Waiting ks b]\<rparr>"
  using assms
  by (auto simp: LoadMany_insert_def split: if_splits call_pc.splits option.splits)

lemma LoadMany_return_cases:
  assumes "LoadMany_return zero i s = Some s'"
  obtains (failed) ks b e where "i < length (calls s)" "calls s ! i = Waiting ks b"
      "b < length (heap s)" "ch (heap s ! b)" "mut (heap s ! b) \<noteq> WriteLocked"
      "\<not> writer_waits (mut (heap s ! b))" "err (heap s ! b) = Some e"
      "s' = s\<lparr>heap := (heap s)[b := (heap s ! b)\<lparr>mut := RLock (mut (heap s ! b))\<rparr>],
              calls := (calls s)[i := CallReturned ks b Map.empty (Some e)]\<rparr>"
    | (succeeded) ks b where "i < length (calls s)" "calls s ! i = Waiting ks b"
      "b < length (heap s)" "ch (heap s ! b)" "mut (heap s ! b) \<noteq> WriteLocked"
      "\<not> writer_waits (mut (heap s ! b))" "err (heap s ! b) = None"
      "s' = s\<lparr>calls := (calls s)[i := CallReturned ks b
                (copy_results zero ks (results (heap s ! b)) Map.empty) None]\<rparr>"
  using assms
  by (auto simp: LoadMany_return_def split: if_splits call_pc.splits option.splits)

lemma run_sleep_cases:
  assumes "run_sleep r s = Some s'"
  obtains "r < length (runs s)" "runs s ! r = RunSpawned"
      "s' = s\<lparr>runs := (runs s)[r := Sleeping (Delay (loader s))]\<rparr>"
  using assms
  by (auto simp: run_sleep_def split: if_splits run_pc.splits)

lemma run_detach_cases:
  assumes "run_detach r s = Some s'"
  obtains d where "r < length (runs s)" "runs s ! r = Sleeping d"
      "s' = s\<lparr>loader := (loader s)\<lparr>currentBatch := None\<rparr>,
              runs := (runs s)[r := Detached (currentBatch (loader s))]\<rparr>"
  using assms
  by (auto simp: run_detach_def split: if_splits run_pc.splits)

lemma run_dispatch_cases:
  assumes "run_dispatch r ks s = Some s'"
  obtains (nil) "r < length (runs s)" "runs s ! r = Detached None"
      "s' = s\<lparr>runs := (runs s)[r := RunPanicked NilPointerDereference]\<rparr>"
    | (panic) b p where "r < length (runs s)" "runs s ! r = Detached (Some b)"
      "b < length (heap s)" "mut (heap s ! b) = Unlocked" "range_keys (keys (heap s ! b)) ks"
      "chunk ks (batchSize (heap s ! b)) = Some (Inl p)"
      "s' = s\<lparr>heap := (heap s)[b := (heap s ! b)\<lparr>mut := WriteLocked\<rparr>],
              runs := (runs s)[r := RunPanicked p]\<rparr>"
    | (chunks) b chunks where "r < length (runs s)" "runs s ! r = Detached (Some b)"
      "b < length (heap s)" "mut (heap s ! b) = Unlocked" "range_keys (keys (heap s ! b)) ks"
      "chunk ks (batchSize (heap s ! b)) = Some (Inr chunks)"
      "s' = s\<lparr>heap := (heap s)[b := (heap s ! b)\<lparr>mut := WriteLocked\<rparr>],
              runs := (runs s)[r := Selecting b (map (\<lambda>c. (c, Fetching)) chunks)]\<rparr>"
  using assms
  by (auto simp: run_dispatch_def split: if_splits run_pc.splits option.splits sum.splits)

lemma fetch_task_cases:
  assumes "fetch_task f ts j = Some ts'"
  obtains g c where "j < length ts" "f = Some g" "ts ! j = (c, Fetching)"
      "ts' = ts[j := (c, Sending (g c))]"
  using assms
  by (cases "ts ! j") (auto simp: fetch_task_def split: if_splits option.splits status.splits)

lemma task_fetch_cases:
  assumes "task_fetch r j s = Some s'"
  obtains (selecting) b ts ts' where "r < length (runs s)" "runs s ! r = Selecting b ts"
      "b < length (heap s)" "fetch_task (batch.fn (heap s ! b)) ts j = Some ts'"
      "s' = s\<lparr>runs := (runs s)[r := Selecting b ts']\<rparr>"
    | (returned) b ts ts' where "r < length (runs s)" "runs s ! r = RunReturned b ts"
      "b < length (heap s)" "fetch_task (batch.fn (heap s ! b)) ts j = Some ts'"
      "s' = s\<lparr>runs := (runs s)[r := RunReturned b ts']\<rparr>"
  using assms
  by (auto simp: task_fetch_def split: if_splits run_pc.splits option.splits)

lemma run_select_cases:
  assumes "run_select r j s = Some s'"
  obtains (result) b ts c res where "r < length (runs s)" "runs s ! r = Selecting b ts"
      "b < length (heap s)" "j < length ts" "ts ! j = (c, Sending (Inr res))"
      "s' = s\<lparr>heap := (heap s)[b := (heap s ! b)
                 \<lparr>results := merge_results (results (heap s ! b)) res\<rparr>],
              runs := (runs s)[r := Selecting b (ts[j := (c, Delivered (Inr res))])]\<rparr>"
    | (error) b ts c e where "r < length (runs s)" "runs s ! r = Selecting b ts"
      "b < length (heap s)" "j < length ts" "ts ! j = (c, Sending (Inl e))"
      "s' = s\<lparr>heap := (heap s)[b := (heap s ! b)\<lparr>ch := True, mut := Unlocked, err := Some e\<rparr>],
              runs := (runs s)[r := RunReturned b (ts[j := (c, Delivered (Inl e))])]\<rparr>"
proof -
  from assms obtain b ts where sel: "r < length (runs s)" "runs s ! r = Selecting b ts"
      "b < length (heap s)" "j < length ts"
    by (auto simp: run_select_def split: if_splits run_pc.splits)
  obtain c st where t: "ts ! j = (c, st)" by (cases "ts ! j")
  from assms sel t show thesis
    by (auto simp: run_select_def split: status.splits sum.splits intro: result error)
qed

lemma run_select_wg_cases:
  assumes "run_select_wg r s = Some s'"
  obtains b ts where "r < length (runs s)" "runs s ! r = Selecting b ts"
      "b < length (heap s)" "list_all delivered ts"
      "s' = s\<lparr>heap := (heap s)[b := (heap s ! b)\<lparr>ch := True, mut := Unlocked\<rparr>],
              runs := (runs s)[r := RunReturned b ts]\<rparr>"
  using assms
  by (auto simp: run_select_wg_def split: if_splits run_pc.splits)

section \<open>The invariants hold\<close>

lemma well_formed_init: "currentBatch l = None \<Longrightarrow> well_formed (init l)"
  by (simp add: well_formed_def init_def)

lemma call_ref_ok_mono: "call_ref_ok n c \<Longrightarrow> n \<le> m \<Longrightarrow> call_ref_ok m c"
  by (cases c) auto

lemma well_formed_exec:
  assumes "well_formed s" and "exec zero a s = Some s'"
  shows "well_formed s'"
proof (cases a)
  case (Call ks)
  with assms show ?thesis by (auto simp: well_formed_def nth_append)
next
  case (SetBatchSize n)
  with assms show ?thesis by (auto simp: well_formed_def)
next
  case (SetDelay d)
  with assms show ?thesis by (auto simp: well_formed_def)
next
  case (Attach i)
  with assms have "LoadMany_attach i s = Some s'" by simp
  then show ?thesis
  proof (cases rule: LoadMany_attach_cases)
    case (create ks)
    with assms(1) show ?thesis
      by (auto simp: well_formed_def nth_append nth_list_update less_Suc_eq intro: call_ref_ok_mono)
  next
    case (join ks b)
    with assms(1) show ?thesis
      by (auto simp: well_formed_def nth_list_update)
  qed
next
  case (Lock i)
  with assms have "LoadMany_lock i s = Some s'" by simp
  then show ?thesis
  proof (cases rule: LoadMany_lock_cases)
    case (1 ks b n)
    with assms(1) show ?thesis
      by (auto simp: well_formed_def nth_list_update)
  qed
next
  case (Insert i)
  with assms have "LoadMany_insert i s = Some s'" by simp
  then show ?thesis
  proof (cases rule: LoadMany_insert_cases)
    case (1 ks b)
    with assms(1) show ?thesis
      by (auto simp: well_formed_def nth_list_update)
  qed
next
  case (Return i)
  with assms have "LoadMany_return zero i s = Some s'" by simp
  then show ?thesis
  proof (cases rule: LoadMany_return_cases)
    case (failed ks b e)
    with assms(1) show ?thesis
      by (auto simp: well_formed_def nth_list_update)
  next
    case (succeeded ks b)
    with assms(1) show ?thesis
      by (auto simp: well_formed_def nth_list_update)
  qed
next
  case (RunSleep r)
  with assms have "run_sleep r s = Some s'" by simp
  then show ?thesis
  proof (cases rule: run_sleep_cases)
    case 1
    with assms(1) show ?thesis
      by (auto simp: well_formed_def nth_list_update)
  qed
next
  case (RunDetach r)
  with assms have "run_detach r s = Some s'" by simp
  then show ?thesis
  proof (cases rule: run_detach_cases)
    case (1 d)
    with assms(1) show ?thesis
      by (auto simp: well_formed_def nth_list_update)
  qed
next
  case (RunDispatch r ks)
  with assms have "run_dispatch r ks s = Some s'" by simp
  then show ?thesis
  proof (cases rule: run_dispatch_cases)
    case nil
    with assms(1) show ?thesis
      by (auto simp: well_formed_def nth_list_update)
  next
    case (panic b p)
    with assms(1) show ?thesis
      by (auto simp: well_formed_def nth_list_update)
  next
    case (chunks b chunks)
    with assms(1) show ?thesis
      by (auto simp: well_formed_def nth_list_update)
  qed
next
  case (TaskFetch r j)
  with assms have "task_fetch r j s = Some s'" by simp
  then show ?thesis
  proof (cases rule: task_fetch_cases)
    case (selecting b ts ts')
    with assms(1) show ?thesis
      by (auto simp: well_formed_def nth_list_update)
  next
    case (returned b ts ts')
    with assms(1) show ?thesis
      by (auto simp: well_formed_def nth_list_update)
  qed
next
  case (Select r j)
  with assms have "run_select r j s = Some s'" by simp
  then show ?thesis
  proof (cases rule: run_select_cases)
    case (result b ts c res)
    with assms(1) show ?thesis
      by (auto simp: well_formed_def nth_list_update)
  next
    case (error b ts c e)
    with assms(1) show ?thesis
      by (auto simp: well_formed_def nth_list_update)
  qed
next
  case (SelectWg r)
  with assms have "run_select_wg r s = Some s'" by simp
  then show ?thesis
  proof (cases rule: run_select_wg_cases)
    case (1 b ts)
    with assms(1) show ?thesis
      by (auto simp: well_formed_def nth_list_update)
  qed
qed

lemma batch_ok_keys [simp]: "batch_ok (B\<lparr>keys := x\<rparr>) pc = batch_ok B pc"
  by (cases pc) auto

lemma batch_ok_mut [simp]: "batch_ok (B\<lparr>mut := x\<rparr>) pc = batch_ok B pc"
  by (cases pc) auto

lemma batches_ok_init: "batches_ok (init l)"
  by (simp add: batches_ok_def init_def)

lemma batches_okD:
  "batches_ok s \<Longrightarrow> r < length (runs s) \<Longrightarrow> batch_ok (heap s ! r) (runs s ! r)"
  by (simp add: batches_ok_def)

lemma well_formed_Selecting: "well_formed s \<Longrightarrow> r < length (runs s) \<Longrightarrow> runs s ! r = Selecting b ts \<Longrightarrow> b = r"
  by (auto simp: well_formed_def dest!: spec[of _ r])

lemma well_formed_RunReturned: "well_formed s \<Longrightarrow> r < length (runs s) \<Longrightarrow> runs s ! r = RunReturned b ts \<Longrightarrow> b = r"
  by (auto simp: well_formed_def dest!: spec[of _ r])

lemma well_formed_Detached: "well_formed s \<Longrightarrow> r < length (runs s) \<Longrightarrow> runs s ! r = Detached x \<Longrightarrow> x = Some r"
  by (auto simp: well_formed_def dest!: spec[of _ r])

lemma well_formed_length: "well_formed s \<Longrightarrow> length (runs s) = length (heap s)"
  by (simp add: well_formed_def)

text \<open>A step that replaces the program counter of run r and the batch r.\<close>

lemma batches_ok_update:
  assumes "batches_ok s" "length (runs s) = length (heap s)" "r < length (runs s)"
    and "batch_ok B pc"
  shows "batches_ok (s\<lparr>heap := (heap s)[r := B], runs := (runs s)[r := pc]\<rparr>)"
  using assms by (auto simp: batches_ok_def nth_list_update)

lemma batches_ok_update_run:
  assumes "batches_ok s" "length (runs s) = length (heap s)" "r < length (runs s)"
    and "batch_ok (heap s ! r) pc"
  shows "batches_ok (s\<lparr>runs := (runs s)[r := pc]\<rparr>)"
  using assms by (auto simp: batches_ok_def nth_list_update)

lemma batches_ok_update_heap:
  assumes "batches_ok s" "length (runs s) = length (heap s)" "r < length (runs s)"
    and "batch_ok B (runs s ! r)"
  shows "batches_ok (s\<lparr>heap := (heap s)[r := B]\<rparr>)"
  using assms by (auto simp: batches_ok_def nth_list_update)

lemma tasks_ok_fetch:
  assumes "tasks_ok f ts" "fetch_task f ts j = Some ts'"
  shows "tasks_ok f ts'"
  using assms(2,1)
  by (cases rule: fetch_task_cases) (auto simp: tasks_ok_def task_ok_def nth_list_update)

lemma none_failed_fetch:
  assumes "none_failed ts" "fetch_task f ts j = Some ts'"
  shows "none_failed ts'"
  using assms(2,1)
  by (cases rule: fetch_task_cases) (auto simp: none_failed_def nth_list_update)

lemma results_from_fetch:
  assumes "results_from res ts" "fetch_task f ts j = Some ts'"
  shows "results_from res ts'"
  using assms(2)
proof (cases rule: fetch_task_cases)
  case (1 g c)
  show ?thesis unfolding results_from_def
  proof (intro allI impI)
    fix k assume "res k \<noteq> None"
    with assms(1) obtain i c' m where i: "i < length ts" "ts ! i = (c', Delivered (Inr m))" "m k \<noteq> None"
      by (auto simp: results_from_def)
    with 1 have "i \<noteq> j" by auto
    with i 1 show "\<exists>j<length ts'. \<exists>c m. ts' ! j = (c, Delivered (Inr m)) \<and> m k \<noteq> None"
      by (intro exI[of _ i]) auto
  qed
qed

lemma delivered_fetch:
  assumes "\<forall>i < length ts. delivered (ts ! i)" "fetch_task f ts j = Some ts'"
  shows "False"
  using assms(2,1)
  by (cases rule: fetch_task_cases) (auto dest!: spec[of _ j])

lemma failed_witness_fetch:
  assumes "i < length ts" "ts ! i = (c, Delivered out)" "fetch_task f ts j = Some ts'"
  shows "i < length ts' \<and> ts' ! i = (c, Delivered out)"
  using assms(3,1,2)
  by (cases rule: fetch_task_cases) (auto simp: nth_list_update)

lemma batch_ok_fetch_Selecting:
  assumes "batch_ok B (Selecting b ts)" "fetch_task (batch.fn B) ts j = Some ts'"
  shows "batch_ok B (Selecting b ts')"
  using assms by (auto intro: tasks_ok_fetch none_failed_fetch results_from_fetch)

lemma batch_ok_fetch_RunReturned:
  assumes "batch_ok B (RunReturned b ts)" "fetch_task (batch.fn B) ts j = Some ts'"
  shows "batch_ok B (RunReturned b ts')"
proof (cases "err B")
  case None
  with assms show ?thesis using delivered_fetch[of ts "batch.fn B" j ts'] by auto
next
  case (Some e)
  with assms obtain i c where "i < length ts" "ts ! i = (c, Delivered (Inl e))" by auto
  from failed_witness_fetch[OF this assms(2)] Some assms show ?thesis
    by (auto intro: tasks_ok_fetch results_from_fetch)
qed

lemma batch_ok_select_result:
  assumes ok: "batch_ok B (Selecting b ts)" and j: "j < length ts"
    and t: "ts ! j = (c, Sending (Inr res))"
  shows "batch_ok (B\<lparr>results := merge_results (results B) res\<rparr>)
           (Selecting b (ts[j := (c, Delivered (Inr res))]))"
proof -
  let ?ts = "ts[j := (c, Delivered (Inr res))]"
  from ok j t have "tasks_ok (batch.fn B) ?ts"
    by (auto simp: tasks_ok_def task_ok_def nth_list_update dest!: spec[of _ j])
  moreover from ok j have "none_failed ?ts"
    by (auto simp: none_failed_def nth_list_update)
  moreover have "results_from (merge_results (results B) res) ?ts"
    unfolding results_from_def
  proof (intro allI impI)
    fix k assume k: "merge_results (results B) res k \<noteq> None"
    show "\<exists>i<length ?ts. \<exists>c m. ?ts ! i = (c, Delivered (Inr m)) \<and> m k \<noteq> None"
    proof (cases "res k")
      case (Some v)
      with j show ?thesis by (intro exI[of _ j]) auto
    next
      case None
      with k have "results B k \<noteq> None" by (auto simp: merge_results_def map_add_def)
      with ok obtain i c' m where i: "i < length ts" "ts ! i = (c', Delivered (Inr m))" "m k \<noteq> None"
        by (auto simp: results_from_def)
      with t have "i \<noteq> j" by auto
      with i show ?thesis by (intro exI[of _ i]) auto
    qed
  qed
  ultimately show ?thesis using ok by simp
qed

lemma batch_ok_select_error:
  assumes ok: "batch_ok B (Selecting b ts)" and j: "j < length ts"
    and t: "ts ! j = (c, Sending (Inl e))"
  shows "batch_ok (B\<lparr>ch := True, mut := Unlocked, err := Some e\<rparr>)
           (RunReturned b (ts[j := (c, Delivered (Inl e))]))"
proof -
  let ?ts = "ts[j := (c, Delivered (Inl e))]"
  from ok j t have "tasks_ok (batch.fn B) ?ts"
    by (auto simp: tasks_ok_def task_ok_def nth_list_update dest!: spec[of _ j])
  moreover have "results_from (results B) ?ts"
    unfolding results_from_def
  proof (intro allI impI)
    fix k assume "results B k \<noteq> None"
    with ok obtain i c' m where i: "i < length ts" "ts ! i = (c', Delivered (Inr m))" "m k \<noteq> None"
      by (auto simp: results_from_def)
    with t have "i \<noteq> j" by auto
    with i show "\<exists>i<length ?ts. \<exists>c m. ?ts ! i = (c, Delivered (Inr m)) \<and> m k \<noteq> None"
      by (intro exI[of _ i]) auto
  qed
  moreover from j have "\<exists>i<length ?ts. \<exists>c'. ?ts ! i = (c', Delivered (Inl e))"
    by (intro exI[of _ j]) auto
  ultimately show ?thesis by simp
qed

lemma batch_ok_select_wg:
  assumes ok: "batch_ok B (Selecting b ts)" and d: "list_all delivered ts"
  shows "batch_ok (B\<lparr>ch := True, mut := Unlocked\<rparr>) (RunReturned b ts)"
  using assms by (auto simp: list_all_length)

lemma batch_ok_dispatch:
  assumes "batch_ok B (Detached x)"
  shows "batch_ok (B\<lparr>mut := WriteLocked\<rparr>) (Selecting b (map (\<lambda>c. (c, Fetching)) chunks))"
  using assms by (auto simp: tasks_ok_def task_ok_def none_failed_def results_from_def)

lemma batches_ok_exec:
  assumes well_formed: "well_formed s" and ok: "batches_ok s" and ex: "exec zero a s = Some s'"
  shows "batches_ok s'"
proof (cases a)
  case (Call ks)
  with ok ex show ?thesis by (auto simp: batches_ok_def)
next
  case (SetBatchSize n)
  with ok ex show ?thesis by (auto simp: batches_ok_def)
next
  case (SetDelay d)
  with ok ex show ?thesis by (auto simp: batches_ok_def)
next
  case (Attach i)
  with ex have "LoadMany_attach i s = Some s'" by simp
  then show ?thesis
  proof (cases rule: LoadMany_attach_cases)
    case (create ks)
    with ok well_formed_length[OF well_formed] show ?thesis
      by (auto simp: batches_ok_def nth_append new_batch_def)
  next
    case (join ks b)
    with ok show ?thesis by (auto simp: batches_ok_def)
  qed
next
  case (Lock i)
  with ex have "LoadMany_lock i s = Some s'" by simp
  then show ?thesis
  proof (cases rule: LoadMany_lock_cases)
    case (1 ks b n)
    with ok well_formed_length[OF well_formed] show ?thesis
      by (auto simp: batches_ok_def nth_list_update)
  qed
next
  case (Insert i)
  with ex have "LoadMany_insert i s = Some s'" by simp
  then show ?thesis
  proof (cases rule: LoadMany_insert_cases)
    case (1 ks b)
    with ok well_formed_length[OF well_formed] show ?thesis
      by (auto simp: batches_ok_def nth_list_update)
  qed
next
  case (Return i)
  with ex have "LoadMany_return zero i s = Some s'" by simp
  then show ?thesis
  proof (cases rule: LoadMany_return_cases)
    case (failed ks b e)
    with ok well_formed_length[OF well_formed] show ?thesis
      by (auto simp: batches_ok_def nth_list_update)
  next
    case (succeeded ks b)
    with ok show ?thesis by (auto simp: batches_ok_def)
  qed
next
  case (RunSleep r)
  with ex have "run_sleep r s = Some s'" by simp
  then show ?thesis
  proof (cases rule: run_sleep_cases)
    case 1
    with batches_okD[OF ok 1(1)] show ?thesis
      using batches_ok_update_run[OF ok well_formed_length[OF well_formed] 1(1), of "Sleeping (Delay (loader s))"]
      by simp
  qed
next
  case (RunDetach r)
  with ex have "run_detach r s = Some s'" by simp
  then show ?thesis
  proof (cases rule: run_detach_cases)
    case (1 d)
    with batches_okD[OF ok 1(1)] ok well_formed_length[OF well_formed] show ?thesis
      by (auto simp: batches_ok_def nth_list_update)
  qed
next
  case (RunDispatch r ks)
  with ex have "run_dispatch r ks s = Some s'" by simp
  then show ?thesis
  proof (cases rule: run_dispatch_cases)
    case nil
    with batches_okD[OF ok nil(1)] show ?thesis
      using batches_ok_update_run[OF ok well_formed_length[OF well_formed] nil(1), of "RunPanicked NilPointerDereference"]
      by simp
  next
    case (panic b p)
    from well_formed_Detached[OF well_formed panic(1,2)] have [simp]: "b = r" by simp
    from batches_okD[OF ok panic(1)] panic
    have "batch_ok ((heap s ! r)\<lparr>mut := WriteLocked\<rparr>) (RunPanicked p)" by simp
    from batches_ok_update[OF ok well_formed_length[OF well_formed] panic(1) this] panic show ?thesis by simp
  next
    case (chunks b chunks)
    from well_formed_Detached[OF well_formed chunks(1,2)] have [simp]: "b = r" by simp
    from batches_okD[OF ok chunks(1)] chunks
    have "batch_ok ((heap s ! r)\<lparr>mut := WriteLocked\<rparr>)
            (Selecting r (map (\<lambda>c. (c, Fetching)) chunks))"
      using batch_ok_dispatch[of "heap s ! r" "Some r" r chunks] by simp
    from batches_ok_update[OF ok well_formed_length[OF well_formed] chunks(1) this] chunks show ?thesis by simp
  qed
next
  case (TaskFetch r j)
  with ex have "task_fetch r j s = Some s'" by simp
  then show ?thesis
  proof (cases rule: task_fetch_cases)
    case (selecting b ts ts')
    from well_formed_Selecting[OF well_formed selecting(1,2)] have [simp]: "b = r" by simp
    from batches_okD[OF ok selecting(1)] selecting
    have B: "batch_ok (heap s ! r) (Selecting r ts)" by simp
    from selecting have F: "fetch_task (batch.fn (heap s ! r)) ts j = Some ts'" by simp
    from batches_ok_update_run[OF ok well_formed_length[OF well_formed] selecting(1)
        batch_ok_fetch_Selecting[OF B F]] selecting
    show ?thesis by simp
  next
    case (returned b ts ts')
    from well_formed_RunReturned[OF well_formed returned(1,2)] have [simp]: "b = r" by simp
    from batches_okD[OF ok returned(1)] returned
    have B: "batch_ok (heap s ! r) (RunReturned r ts)" by simp
    from returned have F: "fetch_task (batch.fn (heap s ! r)) ts j = Some ts'" by simp
    from batches_ok_update_run[OF ok well_formed_length[OF well_formed] returned(1)
        batch_ok_fetch_RunReturned[OF B F]] returned
    show ?thesis by simp
  qed
next
  case (Select r j)
  with ex have "run_select r j s = Some s'" by simp
  then show ?thesis
  proof (cases rule: run_select_cases)
    case (result b ts c res)
    from well_formed_Selecting[OF well_formed result(1,2)] have [simp]: "b = r" by simp
    from batches_okD[OF ok result(1)] result
    have B: "batch_ok (heap s ! r) (Selecting r ts)" by simp
    from batches_ok_update[OF ok well_formed_length[OF well_formed] result(1)
        batch_ok_select_result[OF B result(4,5)]] result
    show ?thesis by simp
  next
    case (error b ts c e)
    from well_formed_Selecting[OF well_formed error(1,2)] have [simp]: "b = r" by simp
    from batches_okD[OF ok error(1)] error
    have B: "batch_ok (heap s ! r) (Selecting r ts)" by simp
    from batches_ok_update[OF ok well_formed_length[OF well_formed] error(1)
        batch_ok_select_error[OF B error(4,5)]] error
    show ?thesis by simp
  qed
next
  case (SelectWg r)
  with ex have "run_select_wg r s = Some s'" by simp
  then show ?thesis
  proof (cases rule: run_select_wg_cases)
    case (1 b ts)
    from well_formed_Selecting[OF well_formed 1(1,2)] have [simp]: "b = r" by simp
    from batches_okD[OF ok 1(1)] 1
    have B: "batch_ok (heap s ! r) (Selecting r ts)" by simp
    from batches_ok_update[OF ok well_formed_length[OF well_formed] 1(1) batch_ok_select_wg[OF B 1(4)]] 1
    show ?thesis by simp
  qed
qed

lemma calls_ok_init: "calls_ok zero (init l)"
  by (simp add: calls_ok_def init_def)

lemma call_ok_append:
  "call_ref_ok (length h) c \<Longrightarrow> call_ok zero (h @ [B]) c = call_ok zero h c"
  by (cases c) (auto simp: nth_append)

lemma call_ok_same:
  assumes "b < length h" "ch B = ch (h ! b)" "err B = err (h ! b)" "results B = results (h ! b)"
  shows "call_ok zero (h[b := B]) c = call_ok zero h c"
  using assms by (cases c) (auto simp: nth_list_update)

lemma call_ok_open:
  assumes "\<not> ch (h ! b)" "call_ok zero h c"
  shows "call_ok zero (h[b := B]) c"
proof (cases c)
  case (CallReturned ks b' res er)
  with assms have "b' \<noteq> b" by auto
  then have "h[b := B] ! b' = h ! b'" by simp
  with assms CallReturned show ?thesis by simp
qed simp_all

lemma well_formed_call_ref: "well_formed s \<Longrightarrow> i < length (calls s) \<Longrightarrow> call_ref_ok (length (heap s)) (calls s ! i)"
  by (simp add: well_formed_def)

lemma calls_ok_exec:
  assumes well_formed: "well_formed s" and bok: "batches_ok s" and ok: "calls_ok zero s"
    and ex: "exec zero a s = Some s'"
  shows "calls_ok zero s'"
proof (cases a)
  case (Call ks)
  with ok ex show ?thesis by (auto simp: calls_ok_def nth_append)
next
  case (SetBatchSize n)
  with ok ex show ?thesis by (auto simp: calls_ok_def)
next
  case (SetDelay d)
  with ok ex show ?thesis by (auto simp: calls_ok_def)
next
  case (Attach i)
  with ex have "LoadMany_attach i s = Some s'" by simp
  then show ?thesis
  proof (cases rule: LoadMany_attach_cases)
    case (create ks)
    with ok well_formed show ?thesis
      by (auto simp: calls_ok_def nth_list_update call_ok_append well_formed_call_ref)
  next
    case (join ks b)
    with ok show ?thesis by (auto simp: calls_ok_def nth_list_update)
  qed
next
  case (Lock i)
  with ex have "LoadMany_lock i s = Some s'" by simp
  then show ?thesis
  proof (cases rule: LoadMany_lock_cases)
    case (1 ks b n)
    with ok show ?thesis
      by (auto simp: calls_ok_def nth_list_update call_ok_same)
  qed
next
  case (Insert i)
  with ex have "LoadMany_insert i s = Some s'" by simp
  then show ?thesis
  proof (cases rule: LoadMany_insert_cases)
    case (1 ks b)
    with ok show ?thesis
      by (auto simp: calls_ok_def nth_list_update call_ok_same)
  qed
next
  case (Return i)
  with ex have "LoadMany_return zero i s = Some s'" by simp
  then show ?thesis
  proof (cases rule: LoadMany_return_cases)
    case (failed ks b e)
    with ok show ?thesis
      by (auto simp: calls_ok_def nth_list_update call_ok_same)
  next
    case (succeeded ks b)
    with ok show ?thesis by (auto simp: calls_ok_def nth_list_update)
  qed
next
  case (RunSleep r)
  with ex have "run_sleep r s = Some s'" by simp
  then show ?thesis
  proof (cases rule: run_sleep_cases)
    case 1
    with ok show ?thesis by (auto simp: calls_ok_def)
  qed
next
  case (RunDetach r)
  with ex have "run_detach r s = Some s'" by simp
  then show ?thesis
  proof (cases rule: run_detach_cases)
    case (1 d)
    with ok show ?thesis by (auto simp: calls_ok_def)
  qed
next
  case (RunDispatch r ks)
  with ex have "run_dispatch r ks s = Some s'" by simp
  then show ?thesis
  proof (cases rule: run_dispatch_cases)
    case nil
    with ok show ?thesis by (auto simp: calls_ok_def)
  next
    case (panic b p)
    with ok show ?thesis by (auto simp: calls_ok_def call_ok_same)
  next
    case (chunks b chunks)
    with ok show ?thesis by (auto simp: calls_ok_def call_ok_same)
  qed
next
  case (TaskFetch r j)
  with ex have "task_fetch r j s = Some s'" by simp
  then show ?thesis
  proof (cases rule: task_fetch_cases)
    case (selecting b ts ts')
    with ok show ?thesis by (auto simp: calls_ok_def)
  next
    case (returned b ts ts')
    with ok show ?thesis by (auto simp: calls_ok_def)
  qed
next
  case (Select r j)
  with ex have "run_select r j s = Some s'" by simp
  then show ?thesis
  proof (cases rule: run_select_cases)
    case (result b ts c res)
    from well_formed_Selecting[OF well_formed result(1,2)] have [simp]: "b = r" by simp
    from batches_okD[OF bok result(1)] result have "\<not> ch (heap s ! r)" by simp
    with ok result show ?thesis by (auto simp: calls_ok_def intro: call_ok_open)
  next
    case (error b ts c e)
    from well_formed_Selecting[OF well_formed error(1,2)] have [simp]: "b = r" by simp
    from batches_okD[OF bok error(1)] error have "\<not> ch (heap s ! r)" by simp
    with ok error show ?thesis by (auto simp: calls_ok_def intro: call_ok_open)
  qed
next
  case (SelectWg r)
  with ex have "run_select_wg r s = Some s'" by simp
  then show ?thesis
  proof (cases rule: run_select_wg_cases)
    case (1 b ts)
    from well_formed_Selecting[OF well_formed 1(1,2)] have [simp]: "b = r" by simp
    from batches_okD[OF bok 1(1)] 1 have "\<not> ch (heap s ! r)" by simp
    with ok 1 show ?thesis by (auto simp: calls_ok_def intro: call_ok_open)
  qed
qed

lemma invariant_init: "currentBatch l = None \<Longrightarrow> invariant zero (init l)"
  by (simp add: invariant_def well_formed_init batches_ok_init calls_ok_init)

lemma invariant_exec:
  assumes "invariant zero s" "exec zero a s = Some s'"
  shows "invariant zero s'"
proof -
  from assms have "well_formed s" "batches_ok s" "calls_ok zero s" by (simp_all add: invariant_def)
  from well_formed_exec[OF this(1) assms(2)] batches_ok_exec[OF this(1,2) assms(2)]
    calls_ok_exec[OF this assms(2)]
  show ?thesis by (simp add: invariant_def)
qed

lemma invariant_exec_all: "invariant zero s \<Longrightarrow> exec_all zero as s = Some s' \<Longrightarrow> invariant zero s'"
proof (induction as arbitrary: s)
  case Nil
  then show ?case by simp
next
  case (Cons a as)
  from Cons.prems(2) obtain s1 where s1: "exec zero a s = Some s1" "exec_all zero as s1 = Some s'"
    by (auto split: option.splits)
  from Cons.IH[OF invariant_exec[OF Cons.prems(1) s1(1)] s1(2)] show ?case .
qed

lemma invariant_reachable:
  "currentBatch l = None \<Longrightarrow> exec_all zero as (init l) = Some s \<Longrightarrow> invariant zero s"
  by (rule invariant_exec_all[OF invariant_init])

lemma count_list_distinct: "distinct xs \<Longrightarrow> x \<in> set xs \<Longrightarrow> count_list xs x = 1"
  by (induction xs) auto

lemma insert_keys_lookup:
  "insert_keys ks m k = (if k \<in> set ks then Some True else m k)"
  by (induction ks arbitrary: m) auto

lemma copy_results_lookup:
  "copy_results zero ks src dst k = (if k \<in> set ks then Some (map_index zero src k) else dst k)"
  by (induction ks arbitrary: dst) auto


lemma inserted_ok_init: "inserted_ok (init l)"
  by (simp add: inserted_ok_def init_def)

lemma call_keys_ok_append:
  "call_ref_ok (length h) c \<Longrightarrow> call_keys_ok (h @ [B]) c = call_keys_ok h c"
  by (cases c) (auto simp: nth_append)

lemma call_keys_ok_same:
  assumes "b < length h" "keys B = keys (h ! b)"
  shows "call_keys_ok (h[b := B]) c = call_keys_ok h c"
  using assms by (cases c) (auto simp: nth_list_update)

lemma call_keys_ok_insert:
  assumes "b < length h" "call_keys_ok h c"
  shows "call_keys_ok (h[b := (h ! b)\<lparr>keys := insert_keys ks (keys (h ! b))\<rparr>]) c"
  using assms by (cases c) (auto simp: nth_list_update insert_keys_lookup)

lemma inserted_ok_exec:
  assumes well_formed: "well_formed s" and ok: "inserted_ok s" and ex: "exec zero a s = Some s'"
  shows "inserted_ok s'"
proof (cases a)
  case (Call ks)
  with ok ex show ?thesis by (auto simp: inserted_ok_def nth_append)
next
  case (SetBatchSize n)
  with ok ex show ?thesis by (auto simp: inserted_ok_def)
next
  case (SetDelay d)
  with ok ex show ?thesis by (auto simp: inserted_ok_def)
next
  case (Attach i)
  with ex have "LoadMany_attach i s = Some s'" by simp
  then show ?thesis
  proof (cases rule: LoadMany_attach_cases)
    case (create ks)
    with ok well_formed show ?thesis
      by (auto simp: inserted_ok_def nth_list_update call_keys_ok_append well_formed_call_ref)
  next
    case (join ks b)
    with ok show ?thesis by (auto simp: inserted_ok_def nth_list_update)
  qed
next
  case (Lock i)
  with ex have "LoadMany_lock i s = Some s'" by simp
  then show ?thesis
  proof (cases rule: LoadMany_lock_cases)
    case (1 ks b n)
    with ok show ?thesis
      by (auto simp: inserted_ok_def nth_list_update call_keys_ok_same)
  qed
next
  case (Insert i)
  with ex have "LoadMany_insert i s = Some s'" by simp
  then show ?thesis
  proof (cases rule: LoadMany_insert_cases)
    case (1 ks b)
    with ok show ?thesis
      by (auto simp: inserted_ok_def nth_list_update insert_keys_lookup
          intro: call_keys_ok_insert)
  qed
next
  case (Return i)
  with ex have "LoadMany_return zero i s = Some s'" by simp
  then show ?thesis
  proof (cases rule: LoadMany_return_cases)
    case (failed ks b e)
    with ok show ?thesis
      by (auto simp: inserted_ok_def nth_list_update call_keys_ok_same dest!: spec[of _ i])
  next
    case (succeeded ks b)
    with ok show ?thesis
      by (auto simp: inserted_ok_def nth_list_update dest!: spec[of _ i])
  qed
next
  case (RunSleep r)
  with ex have "run_sleep r s = Some s'" by simp
  then show ?thesis
    by (cases rule: run_sleep_cases) (use ok in \<open>auto simp: inserted_ok_def\<close>)
next
  case (RunDetach r)
  with ex have "run_detach r s = Some s'" by simp
  then show ?thesis
    by (cases rule: run_detach_cases) (use ok in \<open>auto simp: inserted_ok_def\<close>)
next
  case (RunDispatch r ks)
  with ex have "run_dispatch r ks s = Some s'" by simp
  then show ?thesis
    by (cases rule: run_dispatch_cases)
       (use ok in \<open>auto simp: inserted_ok_def call_keys_ok_same\<close>)
next
  case (TaskFetch r j)
  with ex have "task_fetch r j s = Some s'" by simp
  then show ?thesis
    by (cases rule: task_fetch_cases) (use ok in \<open>auto simp: inserted_ok_def\<close>)
next
  case (Select r j)
  with ex have "run_select r j s = Some s'" by simp
  then show ?thesis
    by (cases rule: run_select_cases)
       (use ok in \<open>auto simp: inserted_ok_def call_keys_ok_same\<close>)
next
  case (SelectWg r)
  with ex have "run_select_wg r s = Some s'" by simp
  then show ?thesis
    by (cases rule: run_select_wg_cases)
       (use ok in \<open>auto simp: inserted_ok_def call_keys_ok_same\<close>)
qed

lemma well_formed_exec_all: "well_formed s \<Longrightarrow> exec_all zero as s = Some s' \<Longrightarrow> well_formed s'"
proof (induction as arbitrary: s)
  case Nil
  then show ?case by simp
next
  case (Cons a as)
  from Cons.prems(2) obtain s1 where s1: "exec zero a s = Some s1" "exec_all zero as s1 = Some s'"
    by (auto split: option.splits)
  from Cons.IH[OF well_formed_exec[OF Cons.prems(1) s1(1)] s1(2)] show ?case .
qed

lemma inserted_ok_exec_all:
  "well_formed s \<Longrightarrow> inserted_ok s \<Longrightarrow> exec_all zero as s = Some s' \<Longrightarrow> inserted_ok s'"
proof (induction as arbitrary: s)
  case Nil
  then show ?case by simp
next
  case (Cons a as)
  from Cons.prems(3) obtain s1 where s1: "exec zero a s = Some s1" "exec_all zero as s1 = Some s'"
    by (auto split: option.splits)
  from Cons.IH[OF well_formed_exec[OF Cons.prems(1) s1(1)] inserted_ok_exec[OF Cons.prems(1,2) s1(1)] s1(2)]
  show ?case .
qed

lemma map_fst_update:
  assumes "j < length ts" "ts ! j = (c, st)"
  shows "map fst (ts[j := (c, st')]) = map fst ts"
proof -
  from assms have "(map fst ts) ! j = c" by simp
  then have "(map fst ts)[j := c] = map fst ts"
    using list_update_id[of "map fst ts" j] by simp
  then show ?thesis by (simp add: map_update)
qed

lemma map_fst_fetch_task: "fetch_task f ts j = Some ts' \<Longrightarrow> map fst ts' = map fst ts"
  by (erule fetch_task_cases) (simp add: map_fst_update)

lemma key_ok_exec:
  assumes well_formed: "well_formed s" and ok: "key_ok b k s" and ex: "exec zero a s = Some s'"
  shows "key_ok b k s'"
proof -
  from ok have b: "b < length (heap s)" "keys (heap s ! b) k = Some True"
    "dispatched_once k (runs s ! b)" by (simp_all add: key_ok_def)
  from well_formed b have br: "b < length (runs s)" by (simp add: well_formed_def)
  show ?thesis
  proof (cases a)
    case (Call ks)
    with ok ex show ?thesis by (auto simp: key_ok_def)
  next
    case (SetBatchSize n)
    with ok ex show ?thesis by (auto simp: key_ok_def)
  next
    case (SetDelay d)
    with ok ex show ?thesis by (auto simp: key_ok_def)
  next
    case (Attach i)
    with ex have "LoadMany_attach i s = Some s'" by simp
    then show ?thesis
      by (cases rule: LoadMany_attach_cases) (use b br in \<open>auto simp: key_ok_def nth_append\<close>)
  next
    case (Lock i)
    with ex have "LoadMany_lock i s = Some s'" by simp
    then show ?thesis
      by (cases rule: LoadMany_lock_cases)
         (use b br in \<open>auto simp: key_ok_def nth_list_update insert_keys_lookup\<close>)
  next
    case (Insert i)
    with ex have "LoadMany_insert i s = Some s'" by simp
    then show ?thesis
      by (cases rule: LoadMany_insert_cases)
         (use b br in \<open>auto simp: key_ok_def nth_list_update insert_keys_lookup\<close>)
  next
    case (Return i)
    with ex have "LoadMany_return zero i s = Some s'" by simp
    then show ?thesis
      by (cases rule: LoadMany_return_cases)
         (use b br in \<open>auto simp: key_ok_def nth_list_update\<close>)
  next
    case (RunSleep r)
    with ex have "run_sleep r s = Some s'" by simp
    then show ?thesis
      by (cases rule: run_sleep_cases)
         (use b br in \<open>auto simp: key_ok_def nth_list_update\<close>)
  next
    case (RunDetach r)
    with ex have "run_detach r s = Some s'" by simp
    then show ?thesis
      by (cases rule: run_detach_cases)
         (use b br in \<open>auto simp: key_ok_def nth_list_update\<close>)
  next
    case (RunDispatch r ks)
    with ex have "run_dispatch r ks s = Some s'" by simp
    then show ?thesis
    proof (cases rule: run_dispatch_cases)
      case nil
      with b br show ?thesis by (auto simp: key_ok_def nth_list_update)
    next
      case (panic b' p)
      with b br show ?thesis by (auto simp: key_ok_def nth_list_update)
    next
      case (chunks b' chunks)
      from well_formed_Detached[OF well_formed chunks(1,2)] have [simp]: "b' = r" by simp
      show ?thesis
      proof (cases "r = b")
        case True
        from chunks True b have "distinct ks" "k \<in> set ks" by (auto simp: range_keys_def)
        then have "count_list ks k = 1" by (rule count_list_distinct)
        moreover from chunks have "concat chunks = ks" by (auto dest: chunk_Inr_concat)
        ultimately show ?thesis using chunks True b br
          by (auto simp: key_ok_def comp_def)
      next
        case False
        with chunks b br show ?thesis by (auto simp: key_ok_def nth_list_update)
      qed
    qed
  next
    case (TaskFetch r j)
    with ex have "task_fetch r j s = Some s'" by simp
    then show ?thesis
      by (cases rule: task_fetch_cases)
         (use b br in \<open>auto simp: key_ok_def nth_list_update map_fst_fetch_task\<close>)
  next
    case (Select r j)
    with ex have "run_select r j s = Some s'" by simp
    then show ?thesis
      by (cases rule: run_select_cases)
         (use b br in \<open>auto simp: key_ok_def nth_list_update map_fst_update\<close>)
  next
    case (SelectWg r)
    with ex have "run_select_wg r s = Some s'" by simp
    then show ?thesis
      by (cases rule: run_select_wg_cases)
         (use b br in \<open>auto simp: key_ok_def nth_list_update\<close>)
  qed
qed

lemma key_ok_exec_all:
  "well_formed s \<Longrightarrow> key_ok b k s \<Longrightarrow> exec_all zero as s = Some s' \<Longrightarrow> key_ok b k s'"
proof (induction as arbitrary: s)
  case Nil
  then show ?case by simp
next
  case (Cons a as)
  from Cons.prems(3) obtain s1 where s1: "exec zero a s = Some s1" "exec_all zero as s1 = Some s'"
    by (auto split: option.splits)
  from Cons.IH[OF well_formed_exec[OF Cons.prems(1) s1(1)] key_ok_exec[OF Cons.prems(1,2) s1(1)] s1(2)]
  show ?case .
qed

lemma unlocked_ok_init: "unlocked_ok (init l)"
  by (simp add: unlocked_ok_def init_def)

lemma returned_unlocked_keys [simp]:
  "returned_unlocked (B\<lparr>keys := x\<rparr>) pc = returned_unlocked B pc"
  by (cases pc) auto

lemma returned_unlocked_results [simp]:
  "returned_unlocked (B\<lparr>results := x\<rparr>) pc = returned_unlocked B pc"
  by (cases pc) auto

lemma RLock_not_WriteLocked: "m \<noteq> WriteLocked \<Longrightarrow> RLock m \<noteq> WriteLocked"
  by (cases m) auto

lemma returned_unlocked_RLock:
  "returned_unlocked B pc \<Longrightarrow> mut B \<noteq> WriteLocked \<Longrightarrow>
   returned_unlocked (B\<lparr>mut := RLock (mut B)\<rparr>) pc"
  by (cases pc) (auto simp: RLock_not_WriteLocked)

lemma returned_unlocked_waiting:
  "returned_unlocked (B\<lparr>mut := WriterWaiting n\<rparr>) pc"
  by (cases pc) auto

lemma returned_unlocked_fetch:
  "returned_unlocked B (RunReturned b ts) \<Longrightarrow> returned_unlocked B (RunReturned b ts')"
  by simp

lemma unlocked_ok_exec:
  assumes well_formed: "well_formed s" and ok: "unlocked_ok s" and ex: "exec zero a s = Some s'"
  shows "unlocked_ok s'"
proof (cases a)
  case (Call ks)
  with ok ex show ?thesis by (auto simp: unlocked_ok_def)
next
  case (SetBatchSize n)
  with ok ex show ?thesis by (auto simp: unlocked_ok_def)
next
  case (SetDelay d)
  with ok ex show ?thesis by (auto simp: unlocked_ok_def)
next
  case (Attach i)
  with ex have "LoadMany_attach i s = Some s'" by simp
  then show ?thesis
    by (cases rule: LoadMany_attach_cases)
       (use ok well_formed_length[OF well_formed] in \<open>auto simp: unlocked_ok_def nth_append\<close>)
next
  case (Lock i)
  with ex have "LoadMany_lock i s = Some s'" by simp
  then show ?thesis
    by (cases rule: LoadMany_lock_cases)
       (use ok well_formed_length[OF well_formed] in
        \<open>auto simp: unlocked_ok_def nth_list_update returned_unlocked_waiting\<close>)
next
  case (Insert i)
  with ex have "LoadMany_insert i s = Some s'" by simp
  then show ?thesis
    by (cases rule: LoadMany_insert_cases)
       (use ok well_formed_length[OF well_formed] in \<open>auto simp: unlocked_ok_def nth_list_update\<close>)
next
  case (Return i)
  with ex have "LoadMany_return zero i s = Some s'" by simp
  then show ?thesis
    by (cases rule: LoadMany_return_cases)
       (use ok well_formed_length[OF well_formed] in
         \<open>auto simp: unlocked_ok_def nth_list_update intro: returned_unlocked_RLock\<close>)
next
  case (RunSleep r)
  with ex have "run_sleep r s = Some s'" by simp
  then show ?thesis
    by (cases rule: run_sleep_cases)
       (use ok in \<open>auto simp: unlocked_ok_def nth_list_update\<close>)
next
  case (RunDetach r)
  with ex have "run_detach r s = Some s'" by simp
  then show ?thesis
    by (cases rule: run_detach_cases)
       (use ok in \<open>auto simp: unlocked_ok_def nth_list_update\<close>)
next
  case (RunDispatch r ks)
  with ex have "run_dispatch r ks s = Some s'" by simp
  then show ?thesis
  proof (cases rule: run_dispatch_cases)
    case nil
    with ok show ?thesis by (auto simp: unlocked_ok_def nth_list_update)
  next
    case (panic b p)
    from well_formed_Detached[OF well_formed panic(1,2)] have "b = r" by simp
    with panic ok well_formed_length[OF well_formed] show ?thesis
      by (auto simp: unlocked_ok_def nth_list_update)
  next
    case (chunks b chunks)
    from well_formed_Detached[OF well_formed chunks(1,2)] have "b = r" by simp
    with chunks ok well_formed_length[OF well_formed] show ?thesis
      by (auto simp: unlocked_ok_def nth_list_update)
  qed
next
  case (TaskFetch r j)
  with ex have "task_fetch r j s = Some s'" by simp
  then show ?thesis
  proof (cases rule: task_fetch_cases)
    case (selecting b ts ts')
    with ok show ?thesis by (auto simp: unlocked_ok_def nth_list_update)
  next
    case (returned b ts ts')
    with ok show ?thesis
      by (auto simp: unlocked_ok_def nth_list_update dest!: spec[of _ r])
  qed
next
  case (Select r j)
  with ex have "run_select r j s = Some s'" by simp
  then show ?thesis
  proof (cases rule: run_select_cases)
    case (result b ts c res)
    from well_formed_Selecting[OF well_formed result(1,2)] have "b = r" by simp
    with result ok well_formed_length[OF well_formed] show ?thesis
      by (auto simp: unlocked_ok_def nth_list_update)
  next
    case (error b ts c e)
    from well_formed_Selecting[OF well_formed error(1,2)] have "b = r" by simp
    with error ok well_formed_length[OF well_formed] show ?thesis
      by (auto simp: unlocked_ok_def nth_list_update)
  qed
next
  case (SelectWg r)
  with ex have "run_select_wg r s = Some s'" by simp
  then show ?thesis
  proof (cases rule: run_select_wg_cases)
    case (1 b ts)
    from well_formed_Selecting[OF well_formed 1(1,2)] have "b = r" by simp
    with 1 ok well_formed_length[OF well_formed] show ?thesis
      by (auto simp: unlocked_ok_def nth_list_update)
  qed
qed

lemma unlocked_ok_exec_all:
  "well_formed s \<Longrightarrow> unlocked_ok s \<Longrightarrow> exec_all zero as s = Some s' \<Longrightarrow> unlocked_ok s'"
proof (induction as arbitrary: s)
  case Nil
  then show ?case by simp
next
  case (Cons a as)
  from Cons.prems(3) obtain s1 where s1: "exec zero a s = Some s1" "exec_all zero as s1 = Some s'"
    by (auto split: option.splits)
  from Cons.IH[OF well_formed_exec[OF Cons.prems(1) s1(1)] unlocked_ok_exec[OF Cons.prems(1,2) s1(1)] s1(2)]
  show ?case .
qed

lemma unlocked_reachable:
  assumes "currentBatch l = None" "exec_all zero as (init l) = Some s"
    "r < length (runs s)" "runs s ! r = RunReturned b ts"
  shows "mut (heap s ! r) \<noteq> WriteLocked"
proof -
  from unlocked_ok_exec_all[OF well_formed_init[OF assms(1)] unlocked_ok_init assms(2)] assms(3,4)
  show ?thesis by (auto simp: unlocked_ok_def dest!: spec[of _ r])
qed

lemma read_locked_RLock: "m \<noteq> WriteLocked \<Longrightarrow> read_locked (RLock m)"
  by (cases m) auto

lemma read_locked_not_Unlocked: "read_locked m \<Longrightarrow> m \<noteq> Unlocked"
  by (cases m) auto

lemma read_locked_not_WriteLocked: "read_locked m \<Longrightarrow> m \<noteq> WriteLocked"
  by (cases m) auto

lemma returned_forD: "returned_for b pc \<Longrightarrow> \<exists>ts. pc = RunReturned b ts"
  by (cases pc) auto

lemma starved_refl: "starved b s s"
  by (simp add: starved_def)

lemma starved_pending:
  "starved b s s' \<Longrightarrow> writer_waits (mut (heap s ! b)) \<Longrightarrow> writer_waits (mut (heap s' ! b))"
  by (simp add: starved_def)

lemma starved_trans:
  assumes "starved b s s1" "starved b s1 s2"
  shows "starved b s s2"
proof -
  have len: "length (calls s) \<le> length (calls s1)" "length (calls s1) \<le> length (calls s2)"
    using assms by (simp_all add: starved_def)
  have "calls s2 ! i = Attached ks b \<or> calls s2 ! i = Locking ks b"
    if "i < length (calls s)" "calls s ! i = Attached ks b" for i ks
  proof -
    from that len have i1: "i < length (calls s1)" by simp
    from assms(1) that have "calls s1 ! i = Attached ks b \<or> calls s1 ! i = Locking ks b"
      by (simp add: starved_def)
    with assms(2) i1 show ?thesis by (auto simp: starved_def)
  qed
  moreover have "calls s2 ! i = Locking ks b"
    if "i < length (calls s)" "calls s ! i = Locking ks b" for i ks
  proof -
    from that len have i1: "i < length (calls s1)" by simp
    from assms(1) that have "calls s1 ! i = Locking ks b" by (simp add: starved_def)
    with assms(2) i1 show ?thesis by (simp add: starved_def)
  qed
  moreover have "calls s2 ! i = Waiting ks b"
    if "i < length (calls s)" "calls s ! i = Waiting ks b" "writer_waits (mut (heap s ! b))"
    for i ks
  proof -
    from that len have i1: "i < length (calls s1)" by simp
    from assms(1) that have "calls s1 ! i = Waiting ks b" by (simp add: starved_def)
    with assms(2) i1 starved_pending[OF assms(1) that(3)] show ?thesis
      by (simp add: starved_def)
  qed
  moreover have "writer_waits (mut (heap s ! b)) \<longrightarrow> writer_waits (mut (heap s2 ! b))"
    using starved_pending[OF assms(1)] starved_pending[OF assms(2)] by blast
  ultimately show ?thesis using len by (simp add: starved_def)
qed

lemma read_held_exec:
  assumes well_formed: "well_formed s" and held: "read_held b s" and ex: "exec zero a s = Some s'"
  shows "read_held b s'"
proof -
  from held have b: "b < length (heap s)" and m: "read_locked (mut (heap s ! b))"
    and "returned_for b (runs s ! b)"
    by (simp_all add: read_held_def)
  then obtain ts where pc: "runs s ! b = RunReturned b ts" by (auto dest: returned_forD)
  from well_formed b have br: "b < length (runs s)" by (simp add: well_formed_def)
  note free = read_locked_not_Unlocked[OF m] read_locked_not_WriteLocked[OF m]
  show ?thesis
  proof (cases a)
    case (Call ks)
    with held ex show ?thesis by (auto simp: read_held_def)
  next
    case (SetBatchSize n)
    with held ex show ?thesis by (auto simp: read_held_def)
  next
    case (SetDelay d)
    with held ex show ?thesis by (auto simp: read_held_def)
  next
    case (Attach i)
    with ex have "LoadMany_attach i s = Some s'" by simp
    then show ?thesis
      by (cases rule: LoadMany_attach_cases)
         (use b br m pc in \<open>auto simp: read_held_def nth_append\<close>)
  next
    case (Lock i)
    with ex have "LoadMany_lock i s = Some s'" by simp
    then show ?thesis
      by (cases rule: LoadMany_lock_cases)
         (use b br m pc in \<open>auto simp: read_held_def nth_list_update\<close>)
  next
    case (Insert i)
    with ex have "LoadMany_insert i s = Some s'" by simp
    then show ?thesis
      by (cases rule: LoadMany_insert_cases)
         (use b br m pc in \<open>auto simp: read_held_def nth_list_update\<close>)
  next
    case (Return i)
    with ex have "LoadMany_return zero i s = Some s'" by simp
    then show ?thesis
      by (cases rule: LoadMany_return_cases)
         (use b br m pc in \<open>auto simp: read_held_def nth_list_update read_locked_RLock\<close>)
  next
    case (RunSleep r)
    with ex have "run_sleep r s = Some s'" by simp
    then show ?thesis
      by (cases rule: run_sleep_cases)
         (use b br m pc in \<open>auto simp: read_held_def nth_list_update\<close>)
  next
    case (RunDetach r)
    with ex have "run_detach r s = Some s'" by simp
    then show ?thesis
      by (cases rule: run_detach_cases)
         (use b br m pc in \<open>auto simp: read_held_def nth_list_update\<close>)
  next
    case (RunDispatch r ks)
    with ex have "run_dispatch r ks s = Some s'" by simp
    then show ?thesis
      by (cases rule: run_dispatch_cases)
         (use b br m pc free in \<open>auto simp: read_held_def nth_list_update\<close>)
  next
    case (TaskFetch r j)
    with ex have "task_fetch r j s = Some s'" by simp
    then show ?thesis
      by (cases rule: task_fetch_cases)
         (use b br m pc in \<open>auto simp: read_held_def nth_list_update\<close>)
  next
    case (Select r j)
    with ex have sel: "run_select r j s = Some s'" by simp
    then obtain b' ts' where r: "r < length (runs s)" "runs s ! r = Selecting b' ts'"
      by (cases rule: run_select_cases) auto
    from well_formed_Selecting[OF well_formed r] have [simp]: "b' = r" .
    from r pc have "r \<noteq> b" by auto
    with sel show ?thesis
      by (cases rule: run_select_cases)
         (use b br m pc r in \<open>auto simp: read_held_def nth_list_update\<close>)
  next
    case (SelectWg r)
    with ex have sel: "run_select_wg r s = Some s'" by simp
    then obtain b' ts' where r: "r < length (runs s)" "runs s ! r = Selecting b' ts'"
      by (cases rule: run_select_wg_cases) auto
    from well_formed_Selecting[OF well_formed r] have [simp]: "b' = r" .
    from r pc have "r \<noteq> b" by auto
    with sel show ?thesis
      by (cases rule: run_select_wg_cases)
         (use b br m pc r in \<open>auto simp: read_held_def nth_list_update\<close>)
  qed
qed

lemma starved_exec:
  assumes well_formed: "well_formed s" and held: "read_held b s" and ex: "exec zero a s = Some s'"
  shows "starved b s s'"
proof -
  from held have b: "b < length (heap s)" and m: "read_locked (mut (heap s ! b))"
    and "returned_for b (runs s ! b)"
    by (simp_all add: read_held_def)
  then obtain ts where pc: "runs s ! b = RunReturned b ts" by (auto dest: returned_forD)
  from well_formed b have br: "b < length (runs s)" by (simp add: well_formed_def)
  note free = read_locked_not_Unlocked[OF m]
  show ?thesis
  proof (cases a)
    case (Call ks)
    with ex show ?thesis by (auto simp: starved_def nth_append)
  next
    case (SetBatchSize n)
    with ex show ?thesis by (auto simp: starved_def)
  next
    case (SetDelay d)
    with ex show ?thesis by (auto simp: starved_def)
  next
    case (Attach i)
    with ex have "LoadMany_attach i s = Some s'" by simp
    then show ?thesis
      by (cases rule: LoadMany_attach_cases)
         (use b in \<open>auto simp: starved_def nth_list_update nth_append\<close>)
  next
    case (Lock i)
    with ex have "LoadMany_lock i s = Some s'" by simp
    then show ?thesis
      by (cases rule: LoadMany_lock_cases)
         (use b in \<open>auto simp: starved_def nth_list_update\<close>)
  next
    case (Insert i)
    with ex have "LoadMany_insert i s = Some s'" by simp
    then show ?thesis
      by (cases rule: LoadMany_insert_cases)
         (use b free in \<open>auto simp: starved_def nth_list_update\<close>)
  next
    case (Return i)
    with ex have "LoadMany_return zero i s = Some s'" by simp
    then show ?thesis
      by (cases rule: LoadMany_return_cases)
         (use b in \<open>auto simp: starved_def nth_list_update\<close>)
  next
    case (RunSleep r)
    with ex have "run_sleep r s = Some s'" by simp
    then show ?thesis by (cases rule: run_sleep_cases) (auto simp: starved_def)
  next
    case (RunDetach r)
    with ex have "run_detach r s = Some s'" by simp
    then show ?thesis by (cases rule: run_detach_cases) (auto simp: starved_def)
  next
    case (RunDispatch r ks)
    with ex have "run_dispatch r ks s = Some s'" by simp
    then show ?thesis
      by (cases rule: run_dispatch_cases)
         (use b free in \<open>auto simp: starved_def nth_list_update\<close>)
  next
    case (TaskFetch r j)
    with ex have "task_fetch r j s = Some s'" by simp
    then show ?thesis by (cases rule: task_fetch_cases) (auto simp: starved_def)
  next
    case (Select r j)
    with ex have sel: "run_select r j s = Some s'" by simp
    then obtain b' ts' where r: "r < length (runs s)" "runs s ! r = Selecting b' ts'"
      by (cases rule: run_select_cases) auto
    from well_formed_Selecting[OF well_formed r] have [simp]: "b' = r" .
    from r pc have "r \<noteq> b" by auto
    with sel show ?thesis
      by (cases rule: run_select_cases)
         (use b r in \<open>auto simp: starved_def nth_list_update\<close>)
  next
    case (SelectWg r)
    with ex have sel: "run_select_wg r s = Some s'" by simp
    then obtain b' ts' where r: "r < length (runs s)" "runs s ! r = Selecting b' ts'"
      by (cases rule: run_select_wg_cases) auto
    from well_formed_Selecting[OF well_formed r] have [simp]: "b' = r" .
    from r pc have "r \<noteq> b" by auto
    with sel show ?thesis
      by (cases rule: run_select_wg_cases)
         (use b r in \<open>auto simp: starved_def nth_list_update\<close>)
  qed
qed

lemma read_held_exec_all:
  "well_formed s \<Longrightarrow> read_held b s \<Longrightarrow> exec_all zero as s = Some s' \<Longrightarrow>
   read_held b s' \<and> starved b s s'"
proof (induction as arbitrary: s)
  case Nil
  then show ?case by (simp add: starved_refl)
next
  case (Cons a as)
  from Cons.prems(3) obtain s1 where s1: "exec zero a s = Some s1" "exec_all zero as s1 = Some s'"
    by (auto split: option.splits)
  note h1 = read_held_exec[OF Cons.prems(1,2) s1(1)]
  note st1 = starved_exec[OF Cons.prems(1,2) s1(1)]
  from Cons.IH[OF well_formed_exec[OF Cons.prems(1) s1(1)] h1 s1(2)] st1
  show ?case by (auto intro: starved_trans)
qed

lemma dispatched_cases:
  assumes "dispatched b cs pc"
  obtains ts where "pc = Selecting b ts" "map fst ts = cs"
    | ts where "pc = RunReturned b ts" "map fst ts = cs"
  using assms by (cases pc) auto

lemma dispatched_exec:
  assumes well_formed: "well_formed s" and br: "b < length (runs s)" and d: "dispatched b cs (runs s ! b)"
    and ex: "exec zero a s = Some s'"
  shows "b < length (runs s') \<and> dispatched b cs (runs s' ! b)"
proof (cases a)
  case (Call ks)
  with ex br d show ?thesis by auto
next
  case (SetBatchSize n)
  with ex br d show ?thesis by auto
next
  case (SetDelay d')
  with ex br d show ?thesis by auto
next
  case (Attach i)
  with ex have "LoadMany_attach i s = Some s'" by simp
  then show ?thesis
    by (cases rule: LoadMany_attach_cases) (use br d in \<open>auto simp: nth_append\<close>)
next
  case (Lock i)
  with ex have "LoadMany_lock i s = Some s'" by simp
  then show ?thesis by (cases rule: LoadMany_lock_cases) (use br d in auto)
next
  case (Insert i)
  with ex have "LoadMany_insert i s = Some s'" by simp
  then show ?thesis by (cases rule: LoadMany_insert_cases) (use br d in auto)
next
  case (Return i)
  with ex have "LoadMany_return zero i s = Some s'" by simp
  then show ?thesis by (cases rule: LoadMany_return_cases) (use br d in auto)
next
  case (RunSleep r)
  with ex have "run_sleep r s = Some s'" by simp
  then show ?thesis
    by (cases rule: run_sleep_cases) (use br d in \<open>auto simp: nth_list_update\<close>)
next
  case (RunDetach r)
  with ex have "run_detach r s = Some s'" by simp
  then show ?thesis
    by (cases rule: run_detach_cases) (use br d in \<open>auto simp: nth_list_update\<close>)
next
  case (RunDispatch r ks)
  with ex have "run_dispatch r ks s = Some s'" by simp
  then show ?thesis
    by (cases rule: run_dispatch_cases) (use br d in \<open>auto simp: nth_list_update\<close>)
next
  case (TaskFetch r j)
  with ex have "task_fetch r j s = Some s'" by simp
  then show ?thesis
    by (cases rule: task_fetch_cases)
       (use br d in \<open>auto simp: nth_list_update map_fst_fetch_task\<close>)
next
  case (Select r j)
  with ex have sel: "run_select r j s = Some s'" by simp
  then obtain b' ts' where r: "r < length (runs s)" "runs s ! r = Selecting b' ts'"
    by (cases rule: run_select_cases) auto
  from well_formed_Selecting[OF well_formed r] have [simp]: "b' = r" .
  from sel show ?thesis
    by (cases rule: run_select_cases)
       (use br d r in \<open>auto simp: nth_list_update map_fst_update\<close>)
next
  case (SelectWg r)
  with ex have sel: "run_select_wg r s = Some s'" by simp
  then obtain b' ts' where r: "r < length (runs s)" "runs s ! r = Selecting b' ts'"
    by (cases rule: run_select_wg_cases) auto
  from well_formed_Selecting[OF well_formed r] have [simp]: "b' = r" .
  from sel show ?thesis
    by (cases rule: run_select_wg_cases) (use br d r in \<open>auto simp: nth_list_update\<close>)
qed

lemma dispatched_exec_all:
  "well_formed s \<Longrightarrow> b < length (runs s) \<Longrightarrow> dispatched b cs (runs s ! b) \<Longrightarrow>
   exec_all zero as s = Some s' \<Longrightarrow> b < length (runs s') \<and> dispatched b cs (runs s' ! b)"
proof (induction as arbitrary: s)
  case Nil
  then show ?case by simp
next
  case (Cons a as)
  from Cons.prems(4) obtain s1 where s1: "exec zero a s = Some s1" "exec_all zero as s1 = Some s'"
    by (auto split: option.splits)
  note d1 = dispatched_exec[OF Cons.prems(1,2,3) s1(1)]
  from Cons.IH[OF well_formed_exec[OF Cons.prems(1) s1(1)] d1[THEN conjunct1] d1[THEN conjunct2] s1(2)]
  show ?case .
qed

lemma exec_length_calls: "exec zero a s = Some s' \<Longrightarrow> length (calls s) \<le> length (calls s')"
proof (cases a)
  case (Attach i)
  then show "exec zero a s = Some s' \<Longrightarrow> ?thesis"
    by (auto elim!: LoadMany_attach_cases)
qed (auto elim!: LoadMany_lock_cases LoadMany_insert_cases LoadMany_return_cases run_sleep_cases
      run_detach_cases run_dispatch_cases task_fetch_cases run_select_cases run_select_wg_cases)

lemma exec_all_length_calls:
  "exec_all zero as s = Some s' \<Longrightarrow> length (calls s) \<le> length (calls s')"
proof (induction as arbitrary: s)
  case Nil
  then show ?case by simp
next
  case (Cons a as)
  from Cons.prems obtain s1 where s1: "exec zero a s = Some s1" "exec_all zero as s1 = Some s'"
    by (auto split: option.splits)
  from exec_length_calls[OF s1(1)] Cons.IH[OF s1(2)] show ?case by simp
qed

lemma invariant_wf: "invariant zero s \<Longrightarrow> well_formed s" by (simp add: invariant_def)

lemma invariant_batches_ok: "invariant zero s \<Longrightarrow> batches_ok s" by (simp add: invariant_def)

lemma invariant_calls_ok: "invariant zero s \<Longrightarrow> calls_ok zero s" by (simp add: invariant_def)

lemma calls_okD:
  "calls_ok zero s \<Longrightarrow> i < length (calls s) \<Longrightarrow> call_ok zero (heap s) (calls s ! i)"
  by (simp add: calls_ok_def)

text \<open>What a returned call holds, and where its window stands.\<close>

lemma returned_call:
  assumes "invariant zero s" "i < length (calls s)" "calls s ! i = CallReturned ks b res er"
  shows "b < length (runs s)" "ch (heap s ! b)" "er = err (heap s ! b)"
    "er \<noteq> None \<Longrightarrow> res = Map.empty"
    "er = None \<Longrightarrow> res = copy_results zero ks (results (heap s ! b)) Map.empty"
    "\<exists>ts. runs s ! b = RunReturned b ts"
proof -
  from calls_okD[OF invariant_calls_ok[OF assms(1)] assms(2)] assms(3)
  show c: "ch (heap s ! b)" and "er = err (heap s ! b)"
    and "er \<noteq> None \<Longrightarrow> res = Map.empty"
    and "er = None \<Longrightarrow> res = copy_results zero ks (results (heap s ! b)) Map.empty"
    by simp_all
  from well_formed_call_ref[OF invariant_wf[OF assms(1)] assms(2)] assms(3) well_formed_length[OF invariant_wf[OF assms(1)]]
  show b: "b < length (runs s)" by simp
  from batches_okD[OF invariant_batches_ok[OF assms(1)] b] c
  obtain b' ts where "runs s ! b = RunReturned b' ts" by (cases "runs s ! b") auto
  with well_formed_RunReturned[OF invariant_wf[OF assms(1)] b this]
  show "\<exists>ts. runs s ! b = RunReturned b ts" by simp
qed

lemma returned_window:
  assumes "invariant zero s" "r < length (runs s)" "runs s ! r = RunReturned b ts"
  shows "b = r" "batch_ok (heap s ! b) (RunReturned b ts)"
proof -
  from well_formed_RunReturned[OF invariant_wf[OF assms(1)] assms(2,3)] show "b = r" .
  with batches_okD[OF invariant_batches_ok[OF assms(1)] assms(2)] assms(3)
  show "batch_ok (heap s ! b) (RunReturned b ts)" by simp
qed

text \<open>Where a returned call comes from: it had returned, or this step is its return.\<close>

lemma CallReturned_origin:
  assumes "exec zero a s = Some s'" "i < length (calls s')"
    "calls s' ! i = CallReturned ks b res er"
  shows "i < length (calls s)
     \<and> (calls s ! i = CallReturned ks b res er \<or> calls s ! i = Waiting ks b \<and> a = Return i)"
proof (cases a)
  case (Call ks')
  with assms show ?thesis by (auto simp: nth_append less_Suc_eq split: if_splits)
next
  case (Attach i')
  with assms show ?thesis
    by (auto elim!: LoadMany_attach_cases simp: nth_list_update split: if_splits)
next
  case (Lock i')
  with assms show ?thesis
    by (auto elim!: LoadMany_lock_cases simp: nth_list_update split: if_splits)
next
  case (Insert i')
  with assms show ?thesis
    by (auto elim!: LoadMany_insert_cases simp: nth_list_update split: if_splits)
next
  case (Return i')
  with assms show ?thesis
    by (auto elim!: LoadMany_return_cases simp: nth_list_update split: if_splits)
qed (use assms in \<open>auto elim!: run_sleep_cases run_detach_cases run_dispatch_cases
      task_fetch_cases run_select_cases run_select_wg_cases\<close>)

lemma readers_ok_init: "readers_ok (init l)"
  by (simp add: readers_ok_def init_def)

lemma readers_okD:
  "readers_ok s \<Longrightarrow> i < length (calls s) \<Longrightarrow> calls s ! i = CallReturned ks b res (Some e) \<Longrightarrow>
   read_locked (mut (heap s ! b))"
  by (auto simp: readers_ok_def dest!: spec[of _ i])

lemma returned_read_held:
  assumes "invariant zero s" "readers_ok s" "i < length (calls s)"
    "calls s ! i = CallReturned ks b res (Some e)"
  shows "read_held b s"
proof -
  note rc = returned_call[OF assms(1,3,4)]
  from rc(6) have "returned_for b (runs s ! b)" by auto
  moreover from rc(1) well_formed_length[OF invariant_wf[OF assms(1)]] have "b < length (heap s)" by simp
  ultimately show ?thesis using readers_okD[OF assms(2,3,4)] by (simp add: read_held_def)
qed

lemma readers_ok_exec:
  assumes invariant: "invariant zero s" and ok: "readers_ok s" and ex: "exec zero a s = Some s'"
  shows "readers_ok s'"
  unfolding readers_ok_def
proof (intro allI impI)
  fix i assume i: "i < length (calls s')"
  show "reader_ok (heap s') (calls s' ! i)"
  proof (cases "calls s' ! i")
    case (CallReturned ks b res er)
    show ?thesis
    proof (cases er)
      case None
      with CallReturned show ?thesis by simp
    next
      case (Some e)
      note pc = CallReturned[unfolded Some]
      from CallReturned_origin[OF ex i pc]
      have i0: "i < length (calls s)"
        and "calls s ! i = CallReturned ks b res (Some e) \<or> calls s ! i = Waiting ks b \<and> a = Return i"
        by simp_all
      then have "read_locked (mut (heap s' ! b))"
      proof (elim disjE conjE)
        assume "calls s ! i = CallReturned ks b res (Some e)"
        from read_held_exec[OF invariant_wf[OF invariant] returned_read_held[OF invariant ok i0 this] ex]
        show ?thesis by (simp add: read_held_def)
      next
        assume w: "calls s ! i = Waiting ks b" and "a = Return i"
        with ex have "LoadMany_return zero i s = Some s'" by simp
        then show ?thesis
          by (cases rule: LoadMany_return_cases)
             (use w pc in \<open>auto simp: read_locked_RLock\<close>)
      qed
      with pc show ?thesis by simp
    qed
  qed simp_all
qed

lemma readers_ok_exec_all:
  "invariant zero s \<Longrightarrow> readers_ok s \<Longrightarrow> exec_all zero as s = Some s' \<Longrightarrow> readers_ok s'"
proof (induction as arbitrary: s)
  case Nil
  then show ?case by simp
next
  case (Cons a as)
  from Cons.prems(3) obtain s1 where s1: "exec zero a s = Some s1" "exec_all zero as s1 = Some s'"
    by (auto split: option.splits)
  from Cons.IH[OF invariant_exec[OF Cons.prems(1) s1(1)] readers_ok_exec[OF Cons.prems(1,2) s1(1)] s1(2)]
  show ?case .
qed

lemma failing_chunk_sets_err:
  assumes ok: "batch_ok B (RunReturned b ts)" and g: "batch.fn B = Some g"
    and c: "c \<in> fst ` set ts" and f: "g c = Inl e0"
  shows "\<exists>e. err B = Some e \<and> (\<exists>c' \<in> fst ` set ts. g c' = Inl e)"
proof (cases "err B")
  case None
  from c obtain j where j: "j < length ts" "fst (ts ! j) = c" by (auto simp: in_set_conv_nth)
  with ok None have "delivered (ts ! j)" "\<not> failed (ts ! j)" "task_ok (batch.fn B) (ts ! j)"
    by (auto simp: none_failed_def tasks_ok_def)
  with j g f show ?thesis
    by (cases "ts ! j"; cases "snd (ts ! j)") (auto simp: task_ok_def)
next
  case (Some e)
  with ok obtain j c' where j: "j < length ts" "ts ! j = (c', Delivered (Inl e))" by auto
  with ok have "task_ok (batch.fn B) (ts ! j)" by (auto simp: tasks_ok_def)
  with j g have "g c' = Inl e" by (simp add: task_ok_def)
  moreover from j have "c' \<in> fst ` set ts" by (metis fst_conv image_eqI nth_mem)
  ultimately show ?thesis using Some by blast
qed

lemma absent_key_no_result:
  assumes ok: "batch_ok B (RunReturned b ts)"
    and absent: "\<forall>c \<in> fst ` set ts. \<forall>g m. batch.fn B = Some g \<and> g c = Inr m \<longrightarrow> m key = None"
  shows "results B key = None"
proof (rule ccontr)
  assume "results B key \<noteq> None"
  with ok obtain j c m where j: "j < length ts" "ts ! j = (c, Delivered (Inr m))" "m key \<noteq> None"
    by (auto simp: results_from_def)
  with ok have "task_ok (batch.fn B) (ts ! j)" by (auto simp: tasks_ok_def)
  with j obtain g where "batch.fn B = Some g" "g c = Inr m" by (auto simp: task_ok_def)
  moreover from j have "c \<in> fst ` set ts" by (metis fst_conv image_eqI nth_mem)
  moreover from absent this have "\<forall>g m. batch.fn B = Some g \<and> g c = Inr m \<longrightarrow> m key = None"
    by (rule bspec)
  ultimately have "m key = None" by blast
  with j(3) show False by simp
qed

lemma stalled_refl: "stalled ts ts"
  by (simp add: stalled_def)

lemma stalled_trans: "stalled ts ts' \<Longrightarrow> stalled ts' ts'' \<Longrightarrow> stalled ts ts''"
  by (auto simp: stalled_def)

lemma stalled_fetch: "fetch_task f ts j = Some ts' \<Longrightarrow> stalled ts ts'"
  by (erule fetch_task_cases) (auto simp: stalled_def nth_list_update)

lemma frozen_exec:
  assumes well_formed: "well_formed s" and r: "r < length (runs s)" and pc: "runs s ! r = RunReturned b ts"
    and ex: "exec zero a s = Some s'"
  shows "frozen r b ts s s'"
proof -
  from well_formed_RunReturned[OF well_formed r pc] have [simp]: "b = r" .
  from well_formed r have rh: "r < length (heap s)" by (simp add: well_formed_def)
  show ?thesis
  proof (cases a)
    case (Call ks)
    with ex pc show ?thesis by (auto simp: frozen_def stalled_refl)
  next
    case (SetBatchSize n)
    with ex pc show ?thesis by (auto simp: frozen_def stalled_refl)
  next
    case (SetDelay d)
    with ex pc show ?thesis by (auto simp: frozen_def stalled_refl)
  next
    case (Attach i)
    with ex have "LoadMany_attach i s = Some s'" by simp
    then show ?thesis
      by (cases rule: LoadMany_attach_cases)
         (use pc r rh in \<open>auto simp: frozen_def stalled_refl nth_append\<close>)
  next
    case (Lock i)
    with ex have "LoadMany_lock i s = Some s'" by simp
    then show ?thesis
      by (cases rule: LoadMany_lock_cases)
         (use pc r rh in \<open>auto simp: frozen_def stalled_refl nth_list_update\<close>)
  next
    case (Insert i)
    with ex have "LoadMany_insert i s = Some s'" by simp
    then show ?thesis
      by (cases rule: LoadMany_insert_cases)
         (use pc r rh in \<open>auto simp: frozen_def stalled_refl nth_list_update\<close>)
  next
    case (Return i)
    with ex have "LoadMany_return zero i s = Some s'" by simp
    then show ?thesis
      by (cases rule: LoadMany_return_cases)
         (use pc r rh in \<open>auto simp: frozen_def stalled_refl nth_list_update\<close>)
  next
    case (RunSleep r')
    with ex have "run_sleep r' s = Some s'" by simp
    then show ?thesis
      by (cases rule: run_sleep_cases)
         (use pc r rh in \<open>auto simp: frozen_def stalled_refl nth_list_update\<close>)
  next
    case (RunDetach r')
    with ex have "run_detach r' s = Some s'" by simp
    then show ?thesis
      by (cases rule: run_detach_cases)
         (use pc r rh in \<open>auto simp: frozen_def stalled_refl nth_list_update\<close>)
  next
    case (RunDispatch r' ks)
    with ex have "run_dispatch r' ks s = Some s'" by simp
    then show ?thesis
      by (cases rule: run_dispatch_cases)
         (use pc r rh in \<open>auto simp: frozen_def stalled_refl nth_list_update\<close>)
  next
    case (TaskFetch r' j)
    with ex have "task_fetch r' j s = Some s'" by simp
    then show ?thesis
      by (cases rule: task_fetch_cases)
         (use pc r rh in \<open>auto simp: frozen_def stalled_refl nth_list_update stalled_fetch\<close>)
  next
    case (Select r' j)
    with ex have "run_select r' j s = Some s'" by simp
    then show ?thesis
    proof (cases rule: run_select_cases)
      case (result b' ts' c res)
      with pc have "r' \<noteq> r" by auto
      moreover from well_formed_Selecting[OF well_formed result(1,2)] have "b' = r'" .
      ultimately show ?thesis using result pc r rh
        by (auto simp: frozen_def stalled_refl nth_list_update)
    next
      case (error b' ts' c e)
      with pc have "r' \<noteq> r" by auto
      moreover from well_formed_Selecting[OF well_formed error(1,2)] have "b' = r'" .
      ultimately show ?thesis using error pc r rh
        by (auto simp: frozen_def stalled_refl nth_list_update)
    qed
  next
    case (SelectWg r')
    with ex have "run_select_wg r' s = Some s'" by simp
    then show ?thesis
    proof (cases rule: run_select_wg_cases)
      case (1 b' ts')
      with pc have "r' \<noteq> r" by auto
      moreover from well_formed_Selecting[OF well_formed 1(1,2)] have "b' = r'" .
      ultimately show ?thesis using 1 pc r rh
        by (auto simp: frozen_def stalled_refl nth_list_update)
    qed
  qed
qed

lemma exec_length_runs: "exec zero a s = Some s' \<Longrightarrow> length (runs s) \<le> length (runs s')"
proof (cases a)
  case (Attach i)
  then show "exec zero a s = Some s' \<Longrightarrow> ?thesis"
    by (auto elim!: LoadMany_attach_cases)
qed (auto elim!: LoadMany_lock_cases LoadMany_insert_cases LoadMany_return_cases run_sleep_cases run_detach_cases
      run_dispatch_cases task_fetch_cases run_select_cases run_select_wg_cases)

lemma frozen_exec_all:
  assumes "well_formed s" "r < length (runs s)" "runs s ! r = RunReturned b ts"
    "exec_all zero as s = Some s'"
  shows "frozen r b ts s s'"
  using assms
proof (induction as arbitrary: s ts)
  case Nil
  then show ?case by (simp add: frozen_def stalled_refl)
next
  case (Cons a as)
  from Cons.prems(4) obtain s1 where s1: "exec zero a s = Some s1" "exec_all zero as s1 = Some s'"
    by (auto split: option.splits)
  from frozen_exec[OF Cons.prems(1,2,3) s1(1)] obtain ts1 where
    f1: "err (heap s1 ! b) = err (heap s ! b)" "results (heap s1 ! b) = results (heap s ! b)"
      "runs s1 ! r = RunReturned b ts1" "stalled ts ts1"
    by (auto simp: frozen_def)
  from exec_length_runs[OF s1(1)] Cons.prems(2) have r1: "r < length (runs s1)" by simp
  from Cons.IH[OF well_formed_exec[OF Cons.prems(1) s1(1)] r1 f1(3) s1(2)] f1
  show ?case by (auto simp: frozen_def intro: stalled_trans)
qed

text \<open>The batch size of a batch never changes.\<close>

lemma batchSize_exec:
  assumes "b < length (heap s)" "exec zero a s = Some s'"
  shows "b < length (heap s') \<and> batchSize (heap s' ! b) = batchSize (heap s ! b)"
proof (cases a)
  case (Attach i)
  with assms show ?thesis by (auto elim!: LoadMany_attach_cases simp: nth_append)
qed (use assms in \<open>auto elim!: LoadMany_lock_cases LoadMany_insert_cases LoadMany_return_cases run_sleep_cases
      run_detach_cases run_dispatch_cases task_fetch_cases run_select_cases run_select_wg_cases
      simp: nth_list_update\<close>)

lemma batchSize_exec_all:
  "b < length (heap s) \<Longrightarrow> exec_all zero as s = Some s' \<Longrightarrow>
   b < length (heap s') \<and> batchSize (heap s' ! b) = batchSize (heap s ! b)"
proof (induction as arbitrary: s)
  case Nil
  then show ?case by simp
next
  case (Cons a as)
  from Cons.prems(2) obtain s1 where s1: "exec zero a s = Some s1" "exec_all zero as s1 = Some s'"
    by (auto split: option.splits)
  from batchSize_exec[OF Cons.prems(1) s1(1)] Cons.IH[OF _ s1(2)] show ?case by simp
qed

text \<open>A run that sleeps keeps its duration until its own detach.\<close>

lemma sleeping_exec:
  assumes "r < length (runs s)" "runs s ! r = Sleeping d" "exec zero a s = Some s'"
    "a \<noteq> RunDetach r"
  shows "r < length (runs s') \<and> runs s' ! r = Sleeping d"
proof (cases a)
  case (Attach i)
  with assms show ?thesis by (auto elim!: LoadMany_attach_cases simp: nth_append)
qed (use assms in \<open>auto elim!: LoadMany_lock_cases LoadMany_insert_cases LoadMany_return_cases run_sleep_cases
      run_detach_cases run_dispatch_cases task_fetch_cases run_select_cases run_select_wg_cases
      simp: nth_list_update\<close>)

lemma sleeping_exec_all:
  "r < length (runs s) \<Longrightarrow> runs s ! r = Sleeping d \<Longrightarrow> exec_all zero as s = Some s' \<Longrightarrow>
   RunDetach r \<notin> set as \<Longrightarrow> r < length (runs s') \<and> runs s' ! r = Sleeping d"
proof (induction as arbitrary: s)
  case Nil
  then show ?case by simp
next
  case (Cons a as)
  from Cons.prems(3) obtain s1 where s1: "exec zero a s = Some s1" "exec_all zero as s1 = Some s'"
    by (auto split: option.splits)
  from Cons.prems(4) have "a \<noteq> RunDetach r" "RunDetach r \<notin> set as" by auto
  from sleeping_exec[OF Cons.prems(1,2) s1(1) this(1)] Cons.IH[OF _ _ s1(2) this(2)]
  show ?case by simp
qed

section \<open>The example runs\<close>

text \<open>The schedules of the examples reach the states of the examples.\<close>

lemmas step_defs = LoadMany_attach_def LoadMany_lock_def LoadMany_insert_def LoadMany_return_def run_sleep_def
  run_detach_def run_dispatch_def task_fetch_def fetch_task_def run_select_def run_select_wg_def
  init_def new_batch_def range_keys_def merge_results_def

lemmas loader_defs = test_loader_def failing_loader_def empty_loader_def defaultBatchSize_def
  defaultDelay_def Millisecond_def fetch_def failing_fetch_def empty_fetch_def


lemma chunk_wat_1000: "chunk [''wat''] 1000 = Some (Inr [[''wat'']])"
  by code_simp

lemma chunk_bad_good_1: "chunk [''bad'', ''good''] 1 = Some (Inr [[''bad''], [''good'']])"
  by code_simp

lemma late_window_reached:
  "exec_all zero_string late_window_schedule (init failing_loader) = Some late_window"
  by (simp add: late_window_schedule_def late_window_def step_defs loader_defs
      chunk_bad_good_1 insert_commute)

lemma blocked_window_locked:
  "exec_all zero_string [Lock 2] late_window = Some blocked_window"
  by (simp add: late_window_def blocked_window_def step_defs)

lemma exec_all_append:
  "exec_all zero as s = Some s1 \<Longrightarrow> exec_all zero as' s1 = Some s2 \<Longrightarrow>
   exec_all zero (as @ as') s = Some s2"
  by (induction as arbitrary: s) (auto split: option.splits)

lemma blocked_window_reached:
  "exec_all zero_string blocked_window_schedule (init failing_loader) = Some blocked_window"
  unfolding blocked_window_schedule_def
  by (rule exec_all_append[OF late_window_reached blocked_window_locked])

lemma blocked_later_reached:
  "exec_all zero_string [Call [''good'']] blocked_window = Some blocked_later"
  by (simp add: blocked_later_def)


lemma dedup_open_reached: "exec_all zero_string dedup_schedule (init test_loader) = Some dedup_open"
  by (simp add: dedup_schedule_def dedup_open_def step_defs loader_defs)

lemma dedup_closed_reached: "exec_all zero_string dedup_resolution dedup_open = Some dedup_closed"
  by (simp add: dedup_resolution_def dedup_open_def dedup_closed_def step_defs loader_defs
      chunk_wat_1000 map_index_def)

lemma late_key_open_reached:
  "exec_all zero_string late_key_schedule (init test_loader) = Some late_key_open"
  by (simp add: late_key_schedule_def late_key_open_def step_defs loader_defs chunk_wat_1000)

lemma late_key_closed_reached:
  "exec_all zero_string late_key_resolution late_key_open = Some late_key_closed"
  by (simp add: late_key_resolution_def late_key_open_def late_key_closed_def step_defs
      loader_defs map_index_def)






lemma wat_created_reached:
  "exec_all zero_string [Call [''wat''], Attach 0] (init test_loader) = Some wat_created"
  by (simp add: wat_created_def step_defs loader_defs)

lemma wat_delay_changed_reached:
  "exec_all zero_string [SetDelay 0, RunSleep 0] wat_created = Some wat_delay_changed"
  by (simp add: wat_created_def wat_delay_changed_def step_defs loader_defs)

lemma wat_reconfigured_reached:
  "exec_all zero_string reconfigure wat_sleeping = Some wat_reconfigured"
  by (simp add: reconfigure_def wat_sleeping_def wat_reconfigured_def step_defs loader_defs)

lemma wat_dispatched_reached: "run_dispatch 0 [''wat''] wat_detached = Some wat_dispatched"
  by (simp add: wat_detached_def wat_dispatched_def step_defs loader_defs chunk_wat_1000)

lemma leak_select: "run_select 0 0 leak_selecting = Some leak_returned"
  by (simp add: leak_selecting_def leak_returned_def step_defs)

lemma leak_returned_reached:
  "exec_all zero_string leak_schedule (init failing_loader) = Some leak_returned"
  by (simp add: leak_schedule_def leak_returned_def step_defs loader_defs chunk_bad_good_1
      insert_commute)

lemma leak_final_reached: "exec_all zero_string [Return 0] leak_returned = Some leak_final"
  by (simp add: leak_returned_def leak_final_def step_defs)

section \<open>Claims\<close>

subsection \<open>LoadMany with zero keys\<close>




subsection \<open>A failed window\<close>

text \<open>
  C2. In every reachable state, for every window that has resolved and in which the fetch
  function fails on some chunk: the batch holds an error, which is the error the fetch
  function returns for one of the window's chunks; every call on that window that has
  returned, whichever chunk its keys were in, returned the empty map and that error
  (\<open>Load\<close> then returns the zero value and that error); and a call that waits on that
  window returns the empty map and that error with its next step, as long as no writer
  waits for the batch's mutex. But not every caller of the window gets that far. A call
  that returns the error leaves the batch's mutex read-locked: line 182 returns without
  \<open>RUnlock\<close>. So, once one call has returned, a call that has yet to lock the mutex for
  its insertion (line 169) never has it, whatever the schedule: it stays before \<open>Lock\<close>
  or inside it. And once a call waits inside \<open>Lock\<close>, it stays there, and the calls that
  have yet to lock the mutex for reading (line 179) stay where they are: they never
  return, with the error or without it.
\<close>

theorem window_error_reaches_callers_unless_blocked:
  assumes "currentBatch l = None" and "exec_all zero as (init l) = Some s"
    and "r < length (runs s)" and "runs s ! r = RunReturned b ts"
    and "batch.fn (heap s ! b) = Some g" and "c \<in> fst ` set ts" and "g c = Inl e0"
  shows "\<exists>e. err (heap s ! b) = Some e \<and> (\<exists>c' \<in> fst ` set ts. g c' = Inl e)
     \<and> (\<forall>i ks res er. i < length (calls s) \<and> calls s ! i = CallReturned ks b res er \<longrightarrow>
           res = Map.empty \<and> er = Some e \<and> (\<forall>key. Load zero key (res, er) = (zero, Some e)))
     \<and> (\<forall>i ks. i < length (calls s) \<and> calls s ! i = Waiting ks b \<and> \<not> writer_waits (mut (heap s ! b)) \<longrightarrow>
           (\<exists>s'. LoadMany_return zero i s = Some s'
              \<and> calls s' ! i = CallReturned ks b Map.empty (Some e)))
     \<and> (\<forall>i0 ks0 res0 er0 as' s'.
           i0 < length (calls s) \<and> calls s ! i0 = CallReturned ks0 b res0 er0
           \<and> exec_all zero as' s = Some s' \<longrightarrow>
           (\<forall>i ks. i < length (calls s) \<and> calls s ! i = Attached ks b \<longrightarrow>
              calls s' ! i = Attached ks b \<or> calls s' ! i = Locking ks b)
           \<and> (\<forall>i ks. i < length (calls s) \<and> calls s ! i = Locking ks b \<longrightarrow>
              calls s' ! i = Locking ks b)
           \<and> (\<forall>i ks. i < length (calls s) \<and> calls s ! i = Waiting ks b \<and> writer_waits (mut (heap s ! b)) \<longrightarrow>
              calls s' ! i = Waiting ks b))"
proof -
  from invariant_reachable[OF assms(1,2)] have invariant: "invariant zero s" .
  from readers_ok_exec_all[OF invariant_init[OF assms(1)] readers_ok_init assms(2)]
  have readers: "readers_ok s" .
  note win = returned_window[OF invariant assms(3,4)]
  from failing_chunk_sets_err[OF win(2) assms(5,6,7)]
  obtain e where e: "err (heap s ! b) = Some e" "\<exists>c' \<in> fst ` set ts. g c' = Inl e" by blast
  have returned: "res = Map.empty \<and> er = Some e
      \<and> (\<forall>key. Load zero key (res, er) = (zero, Some e))"
    if "i < length (calls s)" "calls s ! i = CallReturned ks b res er" for i ks res er
    using returned_call(3,4)[OF invariant that] e(1) by (simp add: Load_def)
  from win(1) assms(3) well_formed_length[OF invariant_wf[OF invariant]] have b: "b < length (heap s)" by simp
  from win(2) have closed: "ch (heap s ! b)" by simp
  from unlocked_reachable[OF assms(1,2,3,4)] win(1)
  have free: "mut (heap s ! b) \<noteq> WriteLocked" by simp
  have waiting: "\<exists>s'. LoadMany_return zero i s = Some s'
      \<and> calls s' ! i = CallReturned ks b Map.empty (Some e)"
    if "i < length (calls s)" "calls s ! i = Waiting ks b" "\<not> writer_waits (mut (heap s ! b))" for i ks
    using that b closed free e(1) by (simp add: LoadMany_return_def)
  have blocked:
    "(\<forall>i ks. i < length (calls s) \<and> calls s ! i = Attached ks b \<longrightarrow>
        calls s' ! i = Attached ks b \<or> calls s' ! i = Locking ks b)
     \<and> (\<forall>i ks. i < length (calls s) \<and> calls s ! i = Locking ks b \<longrightarrow>
        calls s' ! i = Locking ks b)
     \<and> (\<forall>i ks. i < length (calls s) \<and> calls s ! i = Waiting ks b \<and> writer_waits (mut (heap s ! b)) \<longrightarrow>
        calls s' ! i = Waiting ks b)"
    if "i0 < length (calls s)" "calls s ! i0 = CallReturned ks0 b res0 er0"
      "exec_all zero as' s = Some s'" for i0 ks0 res0 er0 as' s'
  proof -
    from returned[OF that(1,2)] have "er0 = Some e" by simp
    with that(2) have "calls s ! i0 = CallReturned ks0 b res0 (Some e)" by simp
    from returned_read_held[OF invariant readers that(1) this] have "read_held b s" .
    from read_held_exec_all[OF invariant_wf[OF invariant] this that(3)] have "starved b s s'" by simp
    then show ?thesis by (simp add: starved_def)
  qed
  show ?thesis
  proof (intro exI[of _ e] conjI)
    show "err (heap s ! b) = Some e" by (rule e(1))
    show "\<exists>c' \<in> fst ` set ts. g c' = Inl e" by (rule e(2))
    show "\<forall>i ks res er. i < length (calls s) \<and> calls s ! i = CallReturned ks b res er \<longrightarrow>
           res = Map.empty \<and> er = Some e \<and> (\<forall>key. Load zero key (res, er) = (zero, Some e))"
      by (intro allI impI, elim conjE, rule returned)
    show "\<forall>i ks. i < length (calls s) \<and> calls s ! i = Waiting ks b \<and> \<not> writer_waits (mut (heap s ! b)) \<longrightarrow>
           (\<exists>s'. LoadMany_return zero i s = Some s'
              \<and> calls s' ! i = CallReturned ks b Map.empty (Some e))"
      by (intro allI impI, elim conjE, rule waiting)
    show "\<forall>i0 ks0 res0 er0 as' s'.
           i0 < length (calls s) \<and> calls s ! i0 = CallReturned ks0 b res0 er0
           \<and> exec_all zero as' s = Some s' \<longrightarrow>
           (\<forall>i ks. i < length (calls s) \<and> calls s ! i = Attached ks b \<longrightarrow>
              calls s' ! i = Attached ks b \<or> calls s' ! i = Locking ks b)
           \<and> (\<forall>i ks. i < length (calls s) \<and> calls s ! i = Locking ks b \<longrightarrow>
              calls s' ! i = Locking ks b)
           \<and> (\<forall>i ks. i < length (calls s) \<and> calls s ! i = Waiting ks b \<and> writer_waits (mut (heap s ! b)) \<longrightarrow>
              calls s' ! i = Waiting ks b)"
      by (intro allI impI, elim conjE, rule blocked)
  qed
qed

text \<open>
  Three calls on one batch, whose window has two chunks; the fetch of \<open>bad\<close> fails. The
  call for \<open>bad\<close> has returned the error and the empty map. The call for \<open>good\<close>, which
  waits, can still return the same; the call for \<open>late\<close> has read the batch pointer and
  has yet to call \<open>Lock\<close>. When it does, it waits there, and from then on neither the
  return of the call for \<open>good\<close> nor the insertion of the call for \<open>late\<close> is a step of
  the state; after one more call has arrived both are where they were.
\<close>

theorem window_error_reaches_callers_unless_blocked_witness:
  "exec_all zero_string late_window_schedule (init failing_loader) = Some late_window
   \<and> runs late_window ! 0
       = RunReturned 0
           [([''bad''], Delivered (Inl ''fetch failed'')),
            ([''good''], Delivered (Inr [''good'' \<mapsto> ''result good'']))]
   \<and> failing_fetch [''bad''] = Inl ''fetch failed''
   \<and> err (heap late_window ! 0) = Some ''fetch failed''
   \<and> calls late_window ! 0 = CallReturned [''bad''] 0 Map.empty (Some ''fetch failed'')
   \<and> Load zero_string ''bad'' (Map.empty, Some ''fetch failed'')
       = (zero_string, Some ''fetch failed'')
   \<and> calls late_window ! 1 = Waiting [''good''] 0
   \<and> \<not> writer_waits (mut (heap late_window ! 0))
   \<and> (\<exists>s'. LoadMany_return zero_string 1 late_window = Some s'
         \<and> calls s' ! 1 = CallReturned [''good''] 0 Map.empty (Some ''fetch failed''))
   \<and> calls late_window ! 2 = Attached [''late''] 0
   \<and> exec_all zero_string [Lock 2] late_window = Some blocked_window
   \<and> calls blocked_window ! 2 = Locking [''late''] 0
   \<and> exec_all zero_string blocked_window_schedule (init failing_loader) = Some blocked_window
   \<and> writer_waits (mut (heap blocked_window ! 0))
   \<and> exec_all zero_string [Call [''good'']] blocked_window = Some blocked_later
   \<and> calls blocked_later ! 1 = Waiting [''good''] 0
   \<and> calls blocked_later ! 2 = Locking [''late''] 0
   \<and> LoadMany_return zero_string 1 blocked_window = None
   \<and> LoadMany_insert 2 blocked_window = None"
proof -
  let ?ts = "[([''bad''], Delivered (Inl ''fetch failed'')),
              ([''good''], Delivered (Inr [''good'' \<mapsto> ''result good'']))]
             :: (string, string, string) task list"
  have l: "currentBatch failing_loader = None" by (simp add: failing_loader_def)
  have b: "failing_fetch [''bad''] = Inl ''fetch failed''" by (simp add: failing_fetch_def)
  have c: "[''bad''] \<in> fst ` set ?ts" by simp
  have r: "0 < length (runs late_window)" and pc: "runs late_window ! 0 = RunReturned 0 ?ts"
    and f: "batch.fn (heap late_window ! 0) = Some failing_fetch"
    by (simp_all add: late_window_def)
  from window_error_reaches_callers_unless_blocked[OF l late_window_reached r pc f c b]
  obtain e where e: "err (heap late_window ! 0) = Some e"
    and returned: "\<forall>i ks res er. i < length (calls late_window)
        \<and> calls late_window ! i = CallReturned ks 0 res er
        \<longrightarrow> res = Map.empty \<and> er = Some e
            \<and> (\<forall>key. Load zero_string key (res, er) = (zero_string, Some e))"
    and waiting: "\<forall>i ks. i < length (calls late_window)
        \<and> calls late_window ! i = Waiting ks 0
        \<and> \<not> writer_waits (mut (heap late_window ! 0))
        \<longrightarrow> (\<exists>s'. LoadMany_return zero_string i late_window = Some s'
              \<and> calls s' ! i = CallReturned ks 0 Map.empty (Some e))"
    and blocked: "\<forall>i0 ks0 res0 er0 as' s'.
        i0 < length (calls late_window) \<and> calls late_window ! i0 = CallReturned ks0 0 res0 er0
        \<and> exec_all zero_string as' late_window = Some s' \<longrightarrow>
        (\<forall>i ks. i < length (calls late_window) \<and> calls late_window ! i = Attached ks 0 \<longrightarrow>
           calls s' ! i = Attached ks 0 \<or> calls s' ! i = Locking ks 0)
        \<and> (\<forall>i ks. i < length (calls late_window) \<and> calls late_window ! i = Locking ks 0 \<longrightarrow>
           calls s' ! i = Locking ks 0)
        \<and> (\<forall>i ks. i < length (calls late_window) \<and> calls late_window ! i = Waiting ks 0
              \<and> writer_waits (mut (heap late_window ! 0)) \<longrightarrow>
           calls s' ! i = Waiting ks 0)"
    by (elim exE conjE)
  from e have e': "e = ''fetch failed''" by (simp add: late_window_def)
  have c0: "0 < length (calls late_window) \<and> calls late_window ! 0 =
      CallReturned [''bad''] 0 Map.empty (Some ''fetch failed'')"
    by (simp add: late_window_def)
  have c1: "1 < length (calls late_window) \<and> calls late_window ! 1 = Waiting [''good''] 0
      \<and> \<not> writer_waits (mut (heap late_window ! 0))"
    by (simp add: late_window_def)
  have c2: "2 < length (calls late_window) \<and> calls late_window ! 2 = Attached [''late''] 0"
    by (simp add: late_window_def)
  from returned[rule_format, OF c0] e'
  have p0: "Load zero_string ''bad'' (Map.empty, Some ''fetch failed'')
       = (zero_string, Some ''fetch failed'')"
    by simp
  from waiting[rule_format, OF c1] e'
  have p1: "\<exists>s'. LoadMany_return zero_string 1 late_window = Some s'
         \<and> calls s' ! 1 = CallReturned [''good''] 0 Map.empty (Some ''fetch failed'')"
    by simp
  from blocked[rule_format, OF conjI[OF c0[THEN conjunct1]
        conjI[OF c0[THEN conjunct2] blocked_window_locked]]]
  have "calls blocked_window ! 2 = Attached [''late''] 0
      \<or> calls blocked_window ! 2 = Locking [''late''] 0"
    using c2 by blast
  then have p2: "calls blocked_window ! 2 = Locking [''late''] 0"
    by (simp add: blocked_window_def)
  have r': "0 < length (runs blocked_window)"
    and pc': "runs blocked_window ! 0 = RunReturned 0 ?ts"
    and f': "batch.fn (heap blocked_window ! 0) = Some failing_fetch"
    by (simp_all add: blocked_window_def)
  from window_error_reaches_callers_unless_blocked[OF l blocked_window_reached r' pc' f' c b]
  obtain e2 where blocked': "\<forall>i0 ks0 res0 er0 as' s'.
        i0 < length (calls blocked_window)
        \<and> calls blocked_window ! i0 = CallReturned ks0 0 res0 er0
        \<and> exec_all zero_string as' blocked_window = Some s' \<longrightarrow>
        (\<forall>i ks. i < length (calls blocked_window)
              \<and> calls blocked_window ! i = Attached ks 0 \<longrightarrow>
           calls s' ! i = Attached ks 0 \<or> calls s' ! i = Locking ks 0)
        \<and> (\<forall>i ks. i < length (calls blocked_window)
              \<and> calls blocked_window ! i = Locking ks 0 \<longrightarrow>
           calls s' ! i = Locking ks 0)
        \<and> (\<forall>i ks. i < length (calls blocked_window)
              \<and> calls blocked_window ! i = Waiting ks 0
              \<and> writer_waits (mut (heap blocked_window ! 0)) \<longrightarrow>
           calls s' ! i = Waiting ks 0)"
    by (elim exE conjE)
  have d0: "0 < length (calls blocked_window) \<and> calls blocked_window ! 0 =
      CallReturned [''bad''] 0 Map.empty (Some ''fetch failed'')
      \<and> exec_all zero_string [Call [''good'']] blocked_window = Some blocked_later"
    using blocked_later_reached by (simp add: blocked_window_def)
  have d1: "1 < length (calls blocked_window) \<and> calls blocked_window ! 1 = Waiting [''good''] 0
      \<and> writer_waits (mut (heap blocked_window ! 0))"
    by (simp add: blocked_window_def)
  have d2: "2 < length (calls blocked_window)
      \<and> calls blocked_window ! 2 = Locking [''late''] 0"
    by (simp add: blocked_window_def)
  note later = blocked'[rule_format, OF d0]
  from later[THEN conjunct2, THEN conjunct2, rule_format, OF d1]
  have p3: "calls blocked_later ! 1 = Waiting [''good''] 0" .
  from later[THEN conjunct2, THEN conjunct1, rule_format, OF d2]
  have p4: "calls blocked_later ! 2 = Locking [''late''] 0" .
  have p5: "LoadMany_return zero_string 1 blocked_window = None"
    "LoadMany_insert 2 blocked_window = None"
    by (simp_all add: blocked_window_def step_defs)
  from late_window_reached pc b e e' c0 p0 c1 p1 c2 blocked_window_locked p2
    blocked_window_reached d1 blocked_later_reached p3 p4 p5
  show ?thesis by simp
qed

subsection \<open>BatchSize and Delay\<close>

text \<open>
  C3. The batch size of a window is the Loader's \<open>BatchSize\<close> at the moment the batch is
  created: \<open>LoadMany\<close> copies it into the batch, no step of any goroutine and no later
  assignment to \<open>BatchSize\<close> changes the copy, and \<open>run\<close> cuts the keys with the copy.
  The delay is not copied: \<open>run\<close> sleeps for the Loader's \<open>Delay\<close> at the moment it calls
  \<open>time.Sleep\<close>, after the batch was created; once it sleeps, an assignment to \<open>Delay\<close>
  does not change the duration.
\<close>

theorem batchSize_copied_Delay_read_by_run:
  "(i < length (calls s) \<and> calls s ! i = Called ks \<and> currentBatch (loader s) = None
    \<longrightarrow> (\<exists>s'. LoadMany_attach i s = Some s'
            \<and> batchSize (heap s' ! length (heap s)) = BatchSize (loader s)))
   \<and> (b < length (heap t) \<and> exec_all zero as t = Some t'
    \<longrightarrow> batchSize (heap t' ! b) = batchSize (heap t ! b))
   \<and> (run_dispatch r order u = Some u' \<and> runs u ! r = Detached (Some d)
      \<and> runs u' ! r = Selecting d' ts
    \<longrightarrow> chunk order (batchSize (heap u ! d)) = Some (Inr (map fst ts)))
   \<and> (run_sleep r v = Some v' \<longrightarrow> runs v' ! r = Sleeping (Delay (loader v)))
   \<and> (r < length (runs w) \<and> runs w ! r = Sleeping dl \<and> exec_all zero as' w = Some w'
      \<and> RunDetach r \<notin> set as'
    \<longrightarrow> runs w' ! r = Sleeping dl)"
  (is "?copied \<and> ?kept \<and> ?used \<and> ?read \<and> ?slept")
proof -
  have p1: ?copied by (simp add: LoadMany_attach_def new_batch_def)
  have p2: ?kept using batchSize_exec_all[of b t zero as t'] by simp
  have p3: ?used
  proof
    assume a: "run_dispatch r order u = Some u' \<and> runs u ! r = Detached (Some d)
      \<and> runs u' ! r = Selecting d' ts"
    then have "run_dispatch r order u = Some u'" by simp
    then show "chunk order (batchSize (heap u ! d)) = Some (Inr (map fst ts))"
      by (cases rule: run_dispatch_cases) (use a in \<open>auto simp: comp_def\<close>)
  qed
  have p4: ?read
  proof
    assume "run_sleep r v = Some v'"
    then show "runs v' ! r = Sleeping (Delay (loader v))"
      by (cases rule: run_sleep_cases) simp
  qed
  have p5: ?slept using sleeping_exec_all[of r w dl zero as' w'] by simp
  show ?thesis by (rule conjI[OF p1 conjI[OF p2 conjI[OF p3 conjI[OF p4 p5]]]])
qed

text \<open>
  A window created with the defaults, whose Loader is then given \<open>BatchSize\<close> 1 and
  \<open>Delay\<close> 0: the chunks are cut with 1000, and the sleep that had begun stays at 5 ms.
\<close>

theorem batchSize_copied_Delay_read_by_run_witness:
  "calls wat_called ! 0 = Called [''wat''] \<and> currentBatch (loader wat_called) = None
   \<and> BatchSize (loader wat_called) = 1000
   \<and> (\<exists>s'. LoadMany_attach 0 wat_called = Some s' \<and> batchSize (heap s' ! 0) = 1000)
   \<and> exec_all zero_string reconfigure wat_sleeping = Some wat_reconfigured
   \<and> BatchSize (loader wat_reconfigured) = 1
   \<and> batchSize (heap wat_reconfigured ! 0) = 1000
   \<and> run_dispatch 0 [''wat''] wat_detached = Some wat_dispatched
   \<and> BatchSize (loader wat_detached) = 1
   \<and> chunk [''wat''] 1000 = Some (Inr [[''wat'']])
   \<and> run_sleep 0 wat_created = Some wat_sleeping
   \<and> runs wat_sleeping ! 0 = Sleeping (5 * Millisecond)
   \<and> Delay (loader wat_reconfigured) = 0
   \<and> runs wat_reconfigured ! 0 = Sleeping (5 * Millisecond)"
proof -
  note inst = batchSize_copied_Delay_read_by_run[of 0 wat_called "[''wat'']" 0 wat_sleeping
      zero_string reconfigure wat_reconfigured 0 "[''wat'']" wat_detached wat_dispatched 0 0
      "[([''wat''], Fetching)]" wat_created wat_sleeping wat_sleeping "5 * Millisecond"
      reconfigure wat_reconfigured]
  have h1: "0 < length (calls wat_called) \<and> calls wat_called ! 0 = Called [''wat'']
      \<and> currentBatch (loader wat_called) = None"
    by (simp add: wat_called_def test_loader_def)
  have h2: "0 < length (heap wat_sleeping)
      \<and> exec_all zero_string reconfigure wat_sleeping = Some wat_reconfigured"
    using wat_reconfigured_reached by (simp add: wat_sleeping_def)
  have h3: "run_dispatch 0 [''wat''] wat_detached = Some wat_dispatched
      \<and> runs wat_detached ! 0 = Detached (Some 0)
      \<and> runs wat_dispatched ! 0 = Selecting 0 [([''wat''], Fetching)]"
    using wat_dispatched_reached by (simp add: wat_detached_def wat_dispatched_def)
  have h4: "run_sleep 0 wat_created = Some wat_sleeping"
    by (simp add: wat_created_def wat_sleeping_def step_defs loader_defs)
  have h5: "0 < length (runs wat_sleeping) \<and> runs wat_sleeping ! 0 = Sleeping (5 * Millisecond)
      \<and> exec_all zero_string reconfigure wat_sleeping = Some wat_reconfigured
      \<and> RunDetach 0 \<notin> set reconfigure"
    using wat_reconfigured_reached by (simp add: wat_sleeping_def reconfigure_def)
  from inst[THEN conjunct1, rule_format, OF h1]
  have p1: "\<exists>s'. LoadMany_attach 0 wat_called = Some s' \<and> batchSize (heap s' ! 0) = 1000"
    by (simp add: wat_called_def loader_defs)
  from inst[THEN conjunct2, THEN conjunct1, rule_format, OF h2]
  have p2: "batchSize (heap wat_reconfigured ! 0) = 1000"
    by (simp add: wat_sleeping_def new_batch_def loader_defs)
  from inst[THEN conjunct2, THEN conjunct2, THEN conjunct1, rule_format, OF h3]
  have p3: "chunk [''wat''] 1000 = Some (Inr [[''wat'']])"
    by (simp add: wat_detached_def new_batch_def loader_defs)
  from inst[THEN conjunct2, THEN conjunct2, THEN conjunct2, THEN conjunct1, rule_format, OF h4]
  have p4: "runs wat_sleeping ! 0 = Sleeping (5 * Millisecond)"
    by (simp add: wat_created_def loader_defs)
  from inst[THEN conjunct2, THEN conjunct2, THEN conjunct2, THEN conjunct2, rule_format, OF h5]
  have p5: "runs wat_reconfigured ! 0 = Sleeping (5 * Millisecond)" .
  from h1 p1 h2 p2 h3 p3 h4 p4 p5 show ?thesis
    by (simp add: wat_called_def wat_reconfigured_def wat_detached_def loader_defs)
qed

text \<open>
  That the delay is the Loader's at the creation of the batch does not hold: an assignment to
  \<open>Delay\<close> after \<open>LoadMany\<close> has created the batch and before \<open>run\<close> reads the field
  changes the sleep of that window, here from 5 ms to 0.
\<close>

theorem Delay_changed_after_creation_changes_sleep:
  "exec_all zero_string [Call [''wat''], Attach 0] (init test_loader) = Some wat_created
   \<and> currentBatch (loader wat_created) = Some 0
   \<and> Delay (loader wat_created) = 5 * Millisecond
   \<and> exec_all zero_string [SetDelay 0, RunSleep 0] wat_created = Some wat_delay_changed
   \<and> runs wat_delay_changed = [Sleeping 0]"
  using wat_created_reached wat_delay_changed_reached
  by (simp add: wat_created_def wat_delay_changed_def loader_defs)

subsection \<open>The first error\<close>

text \<open>
  C4. When the \<open>select\<close> receives an error from a chunk goroutine, that same step stores it
  in \<open>bat.err\<close>, merges nothing, leaves the loop, closes \<open>bat.ch\<close> and returns from \<open>run\<close>.
  From then on, in every state any schedule reaches, the error and the results of the batch
  are unchanged. But nothing receives from the remaining chunk goroutines either: one that
  is blocked in its send stays blocked in that send, and no goroutine that had not ended
  ever ends. They are not drained.
\<close>

theorem error_ends_resolution_stragglers_blocked:
  "(run_select r j s = Some s' \<and> runs s ! r = Selecting b ts \<and> ts ! j = (c, Sending (Inl e))
    \<longrightarrow> err (heap s' ! b) = Some e \<and> ch (heap s' ! b)
        \<and> results (heap s' ! b) = results (heap s ! b)
        \<and> runs s' ! r = RunReturned b (ts[j := (c, Delivered (Inl e))]))
   \<and> (currentBatch l = None \<and> exec_all zero as (init l) = Some t \<and> r' < length (runs t)
      \<and> runs t ! r' = RunReturned b' ts' \<and> exec_all zero as' t = Some t'
    \<longrightarrow> err (heap t' ! b') = err (heap t ! b') \<and> results (heap t' ! b') = results (heap t ! b')
        \<and> (\<exists>ts''. runs t' ! r' = RunReturned b' ts'' \<and> length ts'' = length ts'
              \<and> (\<forall>n < length ts'.
                    (\<forall>c' out. ts' ! n = (c', Sending out) \<longrightarrow> ts'' ! n = (c', Sending out))
                    \<and> (delivered (ts'' ! n) \<longrightarrow> delivered (ts' ! n)))))"
  (is "?recorded \<and> ?abandoned")
proof -
  have p1: ?recorded
  proof
    assume a: "run_select r j s = Some s' \<and> runs s ! r = Selecting b ts
      \<and> ts ! j = (c, Sending (Inl e))"
    then have "run_select r j s = Some s'" by simp
    then show "err (heap s' ! b) = Some e \<and> ch (heap s' ! b)
        \<and> results (heap s' ! b) = results (heap s ! b)
        \<and> runs s' ! r = RunReturned b (ts[j := (c, Delivered (Inl e))])"
      by (cases rule: run_select_cases) (use a in auto)
  qed
  have p2: ?abandoned
  proof
    assume a: "currentBatch l = None \<and> exec_all zero as (init l) = Some t \<and> r' < length (runs t)
      \<and> runs t ! r' = RunReturned b' ts' \<and> exec_all zero as' t = Some t'"
    then have "well_formed t" using invariant_reachable[of l zero as t] by (simp add: invariant_def)
    from frozen_exec_all[OF this, of r' b' ts' zero as' t'] a
    have "frozen r' b' ts' t t'" by simp
    then show "err (heap t' ! b') = err (heap t ! b')
        \<and> results (heap t' ! b') = results (heap t ! b')
        \<and> (\<exists>ts''. runs t' ! r' = RunReturned b' ts'' \<and> length ts'' = length ts'
              \<and> (\<forall>n < length ts'.
                    (\<forall>c' out. ts' ! n = (c', Sending out) \<longrightarrow> ts'' ! n = (c', Sending out))
                    \<and> (delivered (ts'' ! n) \<longrightarrow> delivered (ts' ! n))))"
      unfolding frozen_def stalled_def by blast
  qed
  show ?thesis by (rule conjI[OF p1 p2])
qed

text \<open>
  A window of two chunks: the error of \<open>bad\<close> is received while the goroutine of \<open>good\<close>
  is sending its result; after \<open>run\<close> has returned, and after the caller has returned, that
  goroutine is still sending.
\<close>

theorem error_ends_resolution_stragglers_blocked_witness:
  "run_select 0 0 leak_selecting = Some leak_returned
   \<and> err (heap leak_returned ! 0) = Some ''fetch failed'' \<and> ch (heap leak_returned ! 0)
   \<and> results (heap leak_returned ! 0) = results (heap leak_selecting ! 0)
   \<and> exec_all zero_string leak_schedule (init failing_loader) = Some leak_returned
   \<and> runs leak_returned ! 0
       = RunReturned 0
           [([''bad''], Delivered (Inl ''fetch failed'')),
            ([''good''], Sending (Inr [''good'' \<mapsto> ''result good'']))]
   \<and> exec_all zero_string [Return 0] leak_returned = Some leak_final
   \<and> results (heap leak_final ! 0) = Map.empty
   \<and> (\<exists>ts. runs leak_final ! 0 = RunReturned 0 ts
         \<and> ts ! 1 = ([''good''], Sending (Inr [''good'' \<mapsto> ''result good''])))"
proof -
  note inst = error_ends_resolution_stragglers_blocked[of 0 0 leak_selecting leak_returned 0
      "[([''bad''], Sending (Inl ''fetch failed'')),
        ([''good''], Sending (Inr [''good'' \<mapsto> ''result good'']))]"
      "[''bad'']" "''fetch failed''" failing_loader zero_string leak_schedule leak_returned 0 0
      "[([''bad''], Delivered (Inl ''fetch failed'')),
        ([''good''], Sending (Inr [''good'' \<mapsto> ''result good'']))]"
      "[Return 0]" leak_final]
  have h1: "run_select 0 0 leak_selecting = Some leak_returned
      \<and> runs leak_selecting ! 0 = Selecting 0
           [([''bad''], Sending (Inl ''fetch failed'')),
            ([''good''], Sending (Inr [''good'' \<mapsto> ''result good'']))]
      \<and> [([''bad''], Sending (Inl ''fetch failed'')),
          ([''good''], Sending (Inr [''good'' \<mapsto> ''result good'']))] ! 0
         = ([''bad''], Sending (Inl ''fetch failed''))"
    using leak_select by (simp add: leak_selecting_def)
  have h2: "currentBatch failing_loader = None
      \<and> exec_all zero_string leak_schedule (init failing_loader) = Some leak_returned
      \<and> 0 < length (runs leak_returned)
      \<and> runs leak_returned ! 0 = RunReturned 0
           [([''bad''], Delivered (Inl ''fetch failed'')),
            ([''good''], Sending (Inr [''good'' \<mapsto> ''result good'']))]
      \<and> exec_all zero_string [Return 0] leak_returned = Some leak_final"
    using leak_returned_reached leak_final_reached
    by (simp add: leak_returned_def failing_loader_def)
  from inst[THEN conjunct1, rule_format, OF h1]
  have p1: "err (heap leak_returned ! 0) = Some ''fetch failed'' \<and> ch (heap leak_returned ! 0)
      \<and> results (heap leak_returned ! 0) = results (heap leak_selecting ! 0)"
    by simp
  from inst[THEN conjunct2, rule_format, OF h2]
  have p2: "results (heap leak_final ! 0) = Map.empty
      \<and> (\<exists>ts. runs leak_final ! 0 = RunReturned 0 ts
         \<and> ts ! 1 = ([''good''], Sending (Inr [''good'' \<mapsto> ''result good''])))"
    by (auto simp: leak_returned_def)
  from h1 p1 h2 p2 show ?thesis by simp
qed

subsection \<open>chunk\<close>

text \<open>
  C5. For every list and every positive size, \<open>chunk\<close> returns chunks whose
  concatenation, in order, is the list itself: the partition is contiguous, and no
  element is left out or repeated.
\<close>

theorem chunk_concat:
  "0 < sz \<Longrightarrow> \<exists>chunks. chunk items sz = Some (Inr chunks) \<and> concat chunks = items"
  using chunk_positive[of sz items] by blast

theorem chunk_concat_witness:
  "(0::int) < 2 \<and>
   (\<exists>chunks. chunk [1, 2, 3, 4, 5 :: nat] 2 = Some (Inr chunks) \<and> concat chunks = [1, 2, 3, 4, 5])"
  using chunk_concat[of 2 "[1, 2, 3, 4, 5 :: nat]"] by simp

text \<open>
  C6. For every positive size: the chunks of a non-empty list have between 1 and
  \<open>sz\<close> elements; a non-empty list of at most \<open>sz\<close> elements gives exactly one chunk,
  the list; the empty list gives exactly one chunk, the empty one. In that last case
  \<open>run\<close> starts one goroutine, whose chunk has no keys, so the fetch function is called
  once, with zero keys.
\<close>

theorem chunk_sizes:
  "0 < sz \<Longrightarrow>
   (\<exists>chunks. chunk items sz = Some (Inr chunks)
      \<and> (items \<noteq> [] \<longrightarrow> (\<forall>c \<in> set chunks. 1 \<le> length c \<and> int (length c) \<le> sz))
      \<and> (items \<noteq> [] \<and> int (length items) \<le> sz \<longrightarrow> chunks = [items])
      \<and> (items = [] \<longrightarrow> chunks = [[]]))
   \<and> (r < length (runs s) \<and> runs s ! r = Detached (Some b) \<and> b < length (heap s)
        \<and> mut (heap s ! b) = Unlocked \<and> keys (heap s ! b) = Map.empty
        \<and> batchSize (heap s ! b) = sz
      \<longrightarrow> (\<exists>s'. run_dispatch r [] s = Some s' \<and> runs s' ! r = Selecting b [([], Fetching)]))"
proof
  assume pos: "0 < sz"
  from chunk_positive[OF pos, of items]
  show "\<exists>chunks. chunk items sz = Some (Inr chunks)
      \<and> (items \<noteq> [] \<longrightarrow> (\<forall>c \<in> set chunks. 1 \<le> length c \<and> int (length c) \<le> sz))
      \<and> (items \<noteq> [] \<and> int (length items) \<le> sz \<longrightarrow> chunks = [items])
      \<and> (items = [] \<longrightarrow> chunks = [[]])"
    using pos by (auto split: if_splits)
  from chunk_positive[OF pos, of "[]"] pos have "chunk ([] :: 'b list) sz = Some (Inr [[]])"
    by auto
  then show "r < length (runs s) \<and> runs s ! r = Detached (Some b) \<and> b < length (heap s)
        \<and> mut (heap s ! b) = Unlocked \<and> keys (heap s ! b) = Map.empty
        \<and> batchSize (heap s ! b) = sz
      \<longrightarrow> (\<exists>s'. run_dispatch r [] s = Some s' \<and> runs s' ! r = Selecting b [([], Fetching)])"
    by (auto simp: run_dispatch_def range_keys_def)
qed

theorem chunk_sizes_witness:
  "(0::int) < 1000
   \<and> (\<exists>chunks. chunk [''wat''] 1000 = Some (Inr chunks)
         \<and> list_all (\<lambda>c. 1 \<le> length c \<and> int (length c) \<le> 1000) chunks
         \<and> chunks = [[''wat'']])
   \<and> chunk ([] :: string list) 1000 = Some (Inr [[]])
   \<and> runs zero_keys_detached ! 0 = Detached (Some 0)
   \<and> keys (heap zero_keys_detached ! 0) = Map.empty
   \<and> batchSize (heap zero_keys_detached ! 0) = 1000
   \<and> (\<exists>s'. run_dispatch 0 [] zero_keys_detached = Some s'
         \<and> runs s' ! 0 = Selecting 0 [([], Fetching)])"
proof -
  have pos: "(0::int) < 1000" by simp
  note a = chunk_sizes[OF pos, of "[''wat'']" 0 zero_keys_detached 0]
  note b = chunk_sizes[OF pos, of "[] :: string list" 0 zero_keys_detached 0]
  have u: "0 < length (runs zero_keys_detached) \<and> runs zero_keys_detached ! 0 = Detached (Some 0)
      \<and> 0 < length (heap zero_keys_detached) \<and> mut (heap zero_keys_detached ! 0) = Unlocked
      \<and> keys (heap zero_keys_detached ! 0) = Map.empty
      \<and> batchSize (heap zero_keys_detached ! 0) = 1000"
    by (simp add: zero_keys_detached_def new_batch_def loader_defs)
  from a[THEN conjunct1]
  have p1: "\<exists>chunks. chunk [''wat''] 1000 = Some (Inr chunks)
         \<and> list_all (\<lambda>c. 1 \<le> length c \<and> int (length c) \<le> 1000) chunks
         \<and> chunks = [[''wat'']]"
    by auto
  from b[THEN conjunct1] have p2: "chunk ([] :: string list) 1000 = Some (Inr [[]])" by auto
  from a[THEN conjunct2, rule_format, OF u]
  have p3: "\<exists>s'. run_dispatch 0 [] zero_keys_detached = Some s'
         \<and> runs s' ! 0 = Selecting 0 [([], Fetching)]" .
  from pos p1 p2 u p3 show ?thesis by simp
qed

subsection \<open>Deduplication\<close>

text \<open>
  C7. Take a call and any of its keys. If the call has inserted its keys into a batch
  while that batch is the current one, then in every state any schedule reaches from
  there the key is in the batch's key map (a map holds a key once, however often and by
  however many calls it was inserted); once \<open>run\<close> has dispatched, the key occurs exactly
  once in the chunks of the window taken together; and any two calls on that window that
  asked for the key and have returned, returned the same error and the same value for it,
  from \<open>LoadMany\<close> and from \<open>Load\<close> alike. Keys are compared by equality. But a call that
  has read the pointer to the batch while the batch was current (line 166) and has not
  inserted its keys (line 169) when \<open>run\<close> has dispatched is too late. If the key was in
  none of the chunks then, it is in none of them in any later state: the chunks of the
  window stay what they were. And when the call returns without an error, it returns for
  the key what \<open>bat.results\<close> holds: the zero value, from \<open>Load\<close> with a nil error, when no
  fetch of the window has returned the key.
\<close>

theorem key_dispatched_once_unless_inserted_late:
  assumes "currentBatch l = None" and "exec_all zero as1 (init l) = Some s1"
    and "i < length (calls s1)" and "k \<in> set ks" and "exec_all zero as2 s1 = Some s2"
  shows "(calls s1 ! i = Waiting ks b \<and> currentBatch (loader s1) = Some b \<longrightarrow>
        keys (heap s2 ! b) k = Some True
        \<and> (\<forall>ts. runs s2 ! b = Selecting b ts \<or> runs s2 ! b = RunReturned b ts
              \<longrightarrow> count_list (concat (map fst ts)) k = 1)
        \<and> (\<forall>i1 i2 ks1 ks2 res1 res2 er1 er2.
              i1 < length (calls s2) \<and> calls s2 ! i1 = CallReturned ks1 b res1 er1 \<and> k \<in> set ks1
              \<and> i2 < length (calls s2) \<and> calls s2 ! i2 = CallReturned ks2 b res2 er2 \<and> k \<in> set ks2
              \<longrightarrow> er1 = er2 \<and> res1 k = res2 k
                  \<and> Load zero k (res1, er1) = Load zero k (res2, er2)))
     \<and> (\<forall>ts. calls s1 ! i = Attached ks b
           \<and> (runs s1 ! b = Selecting b ts \<or> runs s1 ! b = RunReturned b ts)
           \<and> k \<notin> set (concat (map fst ts)) \<longrightarrow>
           (\<exists>ts'. (runs s2 ! b = Selecting b ts' \<or> runs s2 ! b = RunReturned b ts')
              \<and> map fst ts' = map fst ts \<and> count_list (concat (map fst ts')) k = 0)
           \<and> (\<forall>res. calls s2 ! i = CallReturned ks b res None
                 \<and> (\<forall>c \<in> set (map fst ts). \<forall>g m.
                        batch.fn (heap s2 ! b) = Some g \<and> g c = Inr m \<longrightarrow> m k = None) \<longrightarrow>
                 res k = Some zero \<and> Load zero k (res, None) = (zero, None)))"
proof -
  from invariant_reachable[OF assms(1,2)] have inv1: "invariant zero s1" .
  then have well_formed1: "well_formed s1" by (rule invariant_wf)
  from invariant_exec_all[OF inv1 assms(5)] have inv2: "invariant zero s2" .
  have in_time: "keys (heap s2 ! b) k = Some True
        \<and> (\<forall>ts. runs s2 ! b = Selecting b ts \<or> runs s2 ! b = RunReturned b ts
              \<longrightarrow> count_list (concat (map fst ts)) k = 1)
        \<and> (\<forall>i1 i2 ks1 ks2 res1 res2 er1 er2.
              i1 < length (calls s2) \<and> calls s2 ! i1 = CallReturned ks1 b res1 er1 \<and> k \<in> set ks1
              \<and> i2 < length (calls s2) \<and> calls s2 ! i2 = CallReturned ks2 b res2 er2 \<and> k \<in> set ks2
              \<longrightarrow> er1 = er2 \<and> res1 k = res2 k
                  \<and> Load zero k (res1, er1) = Load zero k (res2, er2))"
    if w: "calls s1 ! i = Waiting ks b" and cur: "currentBatch (loader s1) = Some b"
  proof -
    from inserted_ok_exec_all[OF well_formed_init[OF assms(1)] inserted_ok_init assms(2)]
    have "inserted_ok s1" .
    with assms(3,4) w have k: "keys (heap s1 ! b) k = Some True"
      by (auto simp: inserted_ok_def dest!: spec[of _ i])
    from well_formed1 cur have b: "b < length (heap s1)" "b < length (runs s1)"
      "pre_detach (runs s1 ! b)"
      by (auto simp: well_formed_def)
    then have "dispatched_once k (runs s1 ! b)" by (cases "runs s1 ! b") auto
    with k b have "key_ok b k s1" by (simp add: key_ok_def)
    from key_ok_exec_all[OF well_formed1 this assms(5)] have ok2: "key_ok b k s2" .
    have same: "er1 = er2 \<and> res1 k = res2 k \<and> Load zero k (res1, er1) = Load zero k (res2, er2)"
      if "i1 < length (calls s2)" "calls s2 ! i1 = CallReturned ks1 b res1 er1" "k \<in> set ks1"
        "i2 < length (calls s2)" "calls s2 ! i2 = CallReturned ks2 b res2 er2" "k \<in> set ks2"
      for i1 i2 ks1 ks2 res1 res2 er1 er2
    proof -
      note c1 = returned_call[OF inv2 that(1,2)] and c2 = returned_call[OF inv2 that(4,5)]
      from c1(3) c2(3) have er: "er1 = er2" by simp
      have "res1 k = res2 k"
      proof (cases er1)
        case None
        with er c1(5) c2(5) that(3,6) show ?thesis by (simp add: copy_results_lookup)
      next
        case (Some e)
        with er c1(4) c2(4) show ?thesis by auto
      qed
      with er show ?thesis by (simp add: Load_def map_index_def split: option.splits)
    qed
    from ok2 have "keys (heap s2 ! b) k = Some True"
      and "\<forall>ts. runs s2 ! b = Selecting b ts \<or> runs s2 ! b = RunReturned b ts
             \<longrightarrow> count_list (concat (map fst ts)) k = 1"
      by (auto simp: key_ok_def)
    with same show ?thesis by blast
  qed
  have late: "(\<exists>ts'. (runs s2 ! b = Selecting b ts' \<or> runs s2 ! b = RunReturned b ts')
              \<and> map fst ts' = map fst ts \<and> count_list (concat (map fst ts')) k = 0)
           \<and> (\<forall>res. calls s2 ! i = CallReturned ks b res None
                 \<and> (\<forall>c \<in> set (map fst ts). \<forall>g m.
                        batch.fn (heap s2 ! b) = Some g \<and> g c = Inr m \<longrightarrow> m k = None) \<longrightarrow>
                 res k = Some zero \<and> Load zero k (res, None) = (zero, None))"
    if a: "calls s1 ! i = Attached ks b"
      and pc: "runs s1 ! b = Selecting b ts \<or> runs s1 ! b = RunReturned b ts"
      and notin: "k \<notin> set (concat (map fst ts))" for ts
  proof -
    from well_formed_call_ref[OF well_formed1 assms(3)] a well_formed_length[OF well_formed1] have br: "b < length (runs s1)"
      by simp
    from pc have "dispatched b (map fst ts) (runs s1 ! b)" by auto
    from dispatched_exec_all[OF well_formed1 br this assms(5)]
    have br2: "b < length (runs s2)" and d2: "dispatched b (map fst ts) (runs s2 ! b)"
      by simp_all
    from d2 obtain ts' where
      ts': "runs s2 ! b = Selecting b ts' \<or> runs s2 ! b = RunReturned b ts'"
        "map fst ts' = map fst ts"
      by (cases rule: dispatched_cases) auto
    from notin ts'(2) have cnt: "count_list (concat (map fst ts')) k = 0"
      by (simp add: count_list_0_iff)
    have zero_at: "res k = Some zero \<and> Load zero k (res, None) = (zero, None)"
      if ret: "calls s2 ! i = CallReturned ks b res None"
        and absent: "\<forall>c \<in> set (map fst ts). \<forall>g m.
              batch.fn (heap s2 ! b) = Some g \<and> g c = Inr m \<longrightarrow> m k = None"
      for res
    proof -
      from exec_all_length_calls[OF assms(5)] assms(3) have i2: "i < length (calls s2)" by simp
      note rc = returned_call[OF inv2 i2 ret]
      from rc(5) have res: "res = copy_results zero ks (results (heap s2 ! b)) Map.empty"
        by simp
      from rc(6) obtain ts2 where ts2: "runs s2 ! b = RunReturned b ts2" ..
      with d2 have m2: "map fst ts2 = map fst ts" by simp
      note ok = returned_window(2)[OF inv2 rc(1) ts2]
      have "fst ` set ts2 = set (map fst ts)" using m2 by (metis set_map)
      with absent have "\<forall>c \<in> fst ` set ts2. \<forall>g m.
          batch.fn (heap s2 ! b) = Some g \<and> g c = Inr m \<longrightarrow> m k = None"
        by simp
      from absent_key_no_result[OF ok this] assms(4) res show ?thesis
        by (simp add: copy_results_lookup map_index_def Load_def)
    qed
    from ts' cnt zero_at show ?thesis by blast
  qed
  from in_time late show ?thesis by blast
qed

text \<open>
  Two calls ask for \<open>wat\<close> three times in all; one chunk with \<open>wat\<close> once is fetched, and
  both calls return the same value. And a call for \<open>late\<close> that has read the batch pointer
  when \<open>run\<close> dispatches the one chunk, with \<open>wat\<close>: it inserts \<open>late\<close> after \<open>run\<close> has
  returned, no fetch is ever called with \<open>late\<close>, and the call returns the zero value and
  a nil error.
\<close>

theorem key_dispatched_once_unless_inserted_late_witness:
  "exec_all zero_string dedup_schedule (init test_loader) = Some dedup_open
   \<and> calls dedup_open ! 0 = Waiting [''wat'', ''wat''] 0
   \<and> currentBatch (loader dedup_open) = Some 0
   \<and> exec_all zero_string dedup_resolution dedup_open = Some dedup_closed
   \<and> keys (heap dedup_closed ! 0) ''wat'' = Some True
   \<and> runs dedup_closed ! 0
       = RunReturned 0 [([''wat''], Delivered (Inr [''wat'' \<mapsto> ''result wat'']))]
   \<and> count_list (concat (map fst [([''wat''], Delivered (Inr [''wat'' \<mapsto> ''result wat'']))]))
        ''wat'' = 1
   \<and> calls dedup_closed ! 0 = CallReturned [''wat'', ''wat''] 0 [''wat'' \<mapsto> ''result wat''] None
   \<and> calls dedup_closed ! 1 = CallReturned [''wat''] 0 [''wat'' \<mapsto> ''result wat''] None
   \<and> exec_all zero_string late_key_schedule (init test_loader) = Some late_key_open
   \<and> calls late_key_open ! 1 = Attached [''late''] 0
   \<and> runs late_key_open ! 0 = Selecting 0 [([''wat''], Fetching)]
   \<and> exec_all zero_string late_key_resolution late_key_open = Some late_key_closed
   \<and> runs late_key_closed ! 0
       = RunReturned 0 [([''wat''], Delivered (Inr [''wat'' \<mapsto> ''result wat'']))]
   \<and> count_list (concat (map fst [([''wat''], Delivered (Inr [''wat'' \<mapsto> ''result wat'']))]))
        ''late'' = 0
   \<and> keys (heap late_key_closed ! 0) ''late'' = Some True
   \<and> calls late_key_closed ! 1 = CallReturned [''late''] 0 [''late'' \<mapsto> zero_string] None
   \<and> Load zero_string ''late'' ([''late'' \<mapsto> zero_string], None) = (zero_string, None)"
proof -
  have l: "currentBatch test_loader = None" by (simp add: test_loader_def)
  have i: "0 < length (calls dedup_open)"
    and c: "calls dedup_open ! 0 = Waiting [''wat'', ''wat''] 0"
    and cur: "currentBatch (loader dedup_open) = Some 0"
    and k: "''wat'' \<in> set [''wat'', ''wat'']"
    by (simp_all add: dedup_open_def)
  note inst = key_dispatched_once_unless_inserted_late[OF l dedup_open_reached i k
      dedup_closed_reached, where b = 0, THEN conjunct1, rule_format, OF conjI[OF c cur]]
  note member = inst[THEN conjunct1]
  have pc: "runs dedup_closed ! 0
       = RunReturned 0 [([''wat''], Delivered (Inr [''wat'' \<mapsto> ''result wat'']))]"
    by (simp add: dedup_closed_def)
  from inst[THEN conjunct2, THEN conjunct1, rule_format,
      of "[([''wat''], Delivered (Inr [''wat'' \<mapsto> ''result wat'']))]"] pc
  have once:
    "count_list (concat (map fst [([''wat''], Delivered (Inr [''wat'' \<mapsto> ''result wat'']))]))
        ''wat'' = 1"
    by simp
  have i': "1 < length (calls late_key_open)"
    and k': "''late'' \<in> set [''late'']"
    and late: "calls late_key_open ! 1 = Attached [''late''] 0
       \<and> (runs late_key_open ! 0 = Selecting 0 [([''wat''], Fetching)]
          \<or> runs late_key_open ! 0 = RunReturned 0 [([''wat''], Fetching)])
       \<and> ''late'' \<notin> set (concat (map fst
            [([''wat''], Fetching :: (string, string, string) status)]))"
    by (simp_all add: late_key_open_def)
  note inst' = key_dispatched_once_unless_inserted_late[OF l late_key_open_reached i' k'
      late_key_closed_reached, where b = 0, THEN conjunct2, rule_format, OF late]
  have pc': "runs late_key_closed ! 0
       = RunReturned 0 [([''wat''], Delivered (Inr [''wat'' \<mapsto> ''result wat'']))]"
    and ret: "calls late_key_closed ! 1 = CallReturned [''late''] 0 [''late'' \<mapsto> zero_string] None"
    and ins: "keys (heap late_key_closed ! 0) ''late'' = Some True"
    by (simp_all add: late_key_closed_def)
  from inst'[THEN conjunct1] pc'
  have never:
    "count_list (concat (map fst [([''wat''], Delivered (Inr [''wat'' \<mapsto> ''result wat'']))]))
        ''late'' = 0"
    by auto
  have absent: "\<forall>c \<in> set (map fst [([''wat''], Fetching :: (string, string, string) status)]).
      \<forall>g m. batch.fn (heap late_key_closed ! 0) = Some g \<and> g c = Inr m \<longrightarrow> m ''late'' = None"
    by (auto simp: late_key_closed_def fetch_def)
  from inst'[THEN conjunct2, rule_format, OF conjI[OF ret absent]]
  have zero: "Load zero_string ''late'' ([''late'' \<mapsto> zero_string], None) = (zero_string, None)"
    by simp
  from dedup_open_reached c cur dedup_closed_reached member pc once
    late_key_open_reached late late_key_closed_reached pc' never ins ret zero
  show ?thesis by (simp add: dedup_closed_def late_key_open_def)
qed

subsection \<open>Keys the fetch function does not return\<close>



subsection \<open>Termination of chunk\<close>

text \<open>
  C9. \<open>chunk\<close> returns chunks for every list when the size is positive, and only then:
  with a size of zero or less it panics, and the loop taken alone, with size zero and
  items left, removes nothing and never ends.
\<close>

theorem chunk_terminates_iff_positive:
  "(0 < sz \<longrightarrow> (\<exists>chunks. chunk items sz = Some (Inr chunks)))
   \<and> (sz \<le> 0 \<longrightarrow> (\<exists>p. chunk items sz = Some (Inl p)))
   \<and> (items \<noteq> [] \<longrightarrow> chunk_loop items 0 acc = None)"
  using chunk_positive[of sz items] chunk_nonpositive[of sz items]
    chunk_loop_zero_diverges[of items acc]
  by blast

theorem chunk_terminates_iff_positive_witness:
  "(0::int) < 2 \<and> (\<exists>chunks. chunk [1, 2, 3 :: nat] 2 = Some (Inr chunks))
   \<and> (0::int) \<le> 0 \<and> (\<exists>p. chunk [1, 2, 3 :: nat] 0 = Some (Inl p))
   \<and> (-1::int) \<le> 0 \<and> (\<exists>p. chunk [1, 2, 3 :: nat] (-1) = Some (Inl p))
   \<and> [1, 2, 3 :: nat] \<noteq> [] \<and> chunk_loop [1, 2, 3 :: nat] 0 [] = None"
  using chunk_terminates_iff_positive[of 2 "[1, 2, 3 :: nat]" "[]"]
    chunk_terminates_iff_positive[of 0 "[1, 2, 3 :: nat]" "[]"]
    chunk_terminates_iff_positive[of "-1" "[1, 2, 3 :: nat]" "[]"]
  by simp

subsection \<open>New\<close>

text \<open>
  C10. For every fetch function, nil included, \<open>New\<close> returns a Loader (a non-nil
  pointer) with \<open>BatchSize\<close> 1000 and \<open>Delay\<close> 5 milliseconds, holding the function and
  no current batch, and a nil error.
\<close>

theorem New_never_fails:
  "\<exists>l. New f = (Some l, None) \<and> BatchSize l = 1000 \<and> Delay l = 5 * Millisecond
     \<and> Loader.fn l = f \<and> currentBatch l = None"
  by (simp add: New_def defaultBatchSize_def defaultDelay_def)

theorem New_never_fails_witness:
  "New (Some fetch) = (Some test_loader, None :: string option)
   \<and> BatchSize test_loader = 1000 \<and> Delay test_loader = 5 * Millisecond"
  using New_never_fails[of "Some fetch"]
  by (auto simp: New_def test_loader_def)

end
